theory Spec2Isabelle
  imports Main "HOL-Library.Word"
begin

unbundle bit_operations_syntax

section \<open>Data model\<close>

text \<open>
  A number is a sequence of 16-bit words, least-significant word first
  (\<^verbatim>\<open>uint16_t*\<close> in \<^verbatim>\<open>rsa.c\<close>).  A C pointer into such a buffer is the
  buffer together with an integer offset; pointer arithmetic moves the offset.
  The word count \<^verbatim>\<open>MPI_NUMBER_SIZE\<close> is defined in \<^verbatim>\<open>rsa.h\<close>; every function
  below takes it as the parameter \<open>N\<close>.

  Every dereference is checked: an access outside the buffer (undefined
  behaviour in C) makes the function return \<open>None\<close>, and so does a division
  by zero.  An offset itself may leave the buffer as long as it is not
  dereferenced: the source steps \<^verbatim>\<open>pr\<close>, \<^verbatim>\<open>a\<close>, \<^verbatim>\<open>b\<close> and \<^verbatim>\<open>bb\<close> one word below
  the start of their buffers after the last access.
\<close>

type_synonym mpi = "16 word list"

definition inb :: "mpi \<Rightarrow> int \<Rightarrow> bool" where
  "inb m i \<longleftrightarrow> 0 \<le> i \<and> i < int (length m)"

text \<open>The unsigned integer a word sequence stands for, in base \<open>2^16\<close>.\<close>

fun val :: "mpi \<Rightarrow> nat" where
  "val [] = 0"
| "val (x # xs) = unat x + 65536 * val xs"

text \<open>The \<open>n\<close> words of buffer \<open>m\<close> that start at offset \<open>p\<close>.\<close>

definition window :: "mpi \<Rightarrow> nat \<Rightarrow> nat \<Rightarrow> mpi" where
  "window m p n = take n (drop p m)"

section \<open>Word-level primitives\<close>

text \<open>
  The loops of \<^verbatim>\<open>rsa.c\<close> are \<^verbatim>\<open>do { ... } while (--count);\<close> with a \<^verbatim>\<open>uint8_t\<close>
  counter: the body runs, the 8-bit counter is decremented with wrap-around, and
  the loop repeats while the counter is not zero.
\<close>

text \<open>\<^verbatim>\<open>mpi_add\<close>: \<^verbatim>\<open>*dest += *src\<close>, returns the carry flag.\<close>

function mpi_add_loop ::
  "mpi \<Rightarrow> int \<Rightarrow> mpi \<Rightarrow> int \<Rightarrow> 32 word \<Rightarrow> 8 word \<Rightarrow> (mpi \<times> 32 word) option" where
  "mpi_add_loop dest d src s c count =
    (if \<not> (inb dest d \<and> inb src s) then None
     else
       let c1 = c + (ucast (dest ! nat d) + ucast (src ! nat s));
           dest1 = dest[nat d := ucast (c1 AND 0xFFFF)];
           c2 = drop_bit 16 c1;
           count1 = count - 1
       in if count1 \<noteq> 0 then mpi_add_loop dest1 (d + 1) src (s + 1) c2 count1
          else Some (dest1, c2))"
  by pat_completeness auto
termination
  apply (relation "measure (\<lambda>(dest, d, src, s, c, count). unat (count - 1))")
   apply simp
  subgoal for dest d src s c count
    using measure_unat [of "count - 1"] by simp
  done

definition mpi_add :: "nat \<Rightarrow> mpi \<Rightarrow> int \<Rightarrow> mpi \<Rightarrow> int \<Rightarrow> (mpi \<times> 8 word) option" where
  "mpi_add N dest d src s =
     (case mpi_add_loop dest d src s 0 (of_nat N) of
        None \<Rightarrow> None
      | Some (dest', c) \<Rightarrow> Some (dest', ucast (c AND 1)))"

text \<open>\<^verbatim>\<open>mpi_sub\<close>: \<^verbatim>\<open>*dest -= *src\<close>; the final borrow is dropped.\<close>

function mpi_sub_loop ::
  "mpi \<Rightarrow> int \<Rightarrow> mpi \<Rightarrow> int \<Rightarrow> 32 word \<Rightarrow> 8 word \<Rightarrow> mpi option" where
  "mpi_sub_loop dest d src s c count =
    (if \<not> (inb dest d \<and> inb src s) then None
     else
       let c1 = c + (65535 + ucast (dest ! nat d) - ucast (src ! nat s));
           dest1 = dest[nat d := ucast (c1 AND 0xFFFF)];
           c2 = drop_bit 16 c1 AND 1;
           count1 = count - 1
       in if count1 \<noteq> 0 then mpi_sub_loop dest1 (d + 1) src (s + 1) c2 count1
          else Some dest1)"
  by pat_completeness auto
termination
  apply (relation "measure (\<lambda>(dest, d, src, s, c, count). unat (count - 1))")
   apply simp
  subgoal for dest d src s c count
    using measure_unat [of "count - 1"] by simp
  done

definition mpi_sub :: "nat \<Rightarrow> mpi \<Rightarrow> int \<Rightarrow> mpi \<Rightarrow> int \<Rightarrow> mpi option" where
  "mpi_sub N dest d src s = mpi_sub_loop dest d src s 1 (of_nat N)"

text \<open>
  \<^verbatim>\<open>mpi_cmp\<close>: scans from the most-significant word down and returns the sign
  of the first non-zero word difference, as an \<^verbatim>\<open>int8_t\<close>.  The difference
  \<^verbatim>\<open>dif\<close> is an \<^verbatim>\<open>int32_t\<close>, tested with a signed comparison.
\<close>

function mpi_cmp_loop :: "mpi \<Rightarrow> int \<Rightarrow> mpi \<Rightarrow> int \<Rightarrow> 8 word \<Rightarrow> 8 word option" where
  "mpi_cmp_loop a ai b bi count =
    (if \<not> (inb a ai \<and> inb b bi) then None
     else
       let dif = (ucast (a ! nat ai) - ucast (b ! nat bi) :: 32 word)
       in if dif \<noteq> 0 then Some (if 0 <s dif then 1 else - 1)
          else
            let count1 = count - 1
            in if count1 \<noteq> 0 then mpi_cmp_loop a (ai - 1) b (bi - 1) count1
               else Some 0)"
  by pat_completeness auto
termination
  apply (relation "measure (\<lambda>(a, ai, b, bi, count). unat (count - 1))")
   apply simp
  subgoal for a ai b bi count
    using measure_unat [of "count - 1"] by simp
  done

definition mpi_cmp :: "nat \<Rightarrow> mpi \<Rightarrow> int \<Rightarrow> mpi \<Rightarrow> int \<Rightarrow> 8 word option" where
  "mpi_cmp N a ai b bi =
     mpi_cmp_loop a (ai + (int N - 1)) b (bi + (int N - 1)) (of_nat N)"

section \<open>Multiply-subtract-digit\<close>

text \<open>
  \<^verbatim>\<open>mpi_mulsubuuk\<close>: \<^verbatim>\<open>*c -= *a * b\<close> over \<open>N + 1\<close> words of \<open>c\<close>; the source
  comment says it returns the \<^verbatim>\<open>/nborrow\<close> flag of the subtraction.  The product
  \<^verbatim>\<open>*a++ * b\<close> of two promoted \<^verbatim>\<open>uint16_t\<close> is taken as the 32-bit pattern that is
  added to the \<^verbatim>\<open>uint32_t\<close> \<^verbatim>\<open>mcarry\<close>.
\<close>

function mpi_mulsubuuk_loop ::
  "mpi \<Rightarrow> int \<Rightarrow> mpi \<Rightarrow> int \<Rightarrow> 16 word \<Rightarrow> 32 word \<Rightarrow> 32 word \<Rightarrow> 8 word
     \<Rightarrow> (mpi \<times> int \<times> 32 word \<times> 32 word) option" where
  "mpi_mulsubuuk_loop c cp a ap b nborrow mcarry count =
    (if \<not> (inb a ap \<and> inb c cp) then None
     else
       let mcarry1 = mcarry + ucast (a ! nat ap) * ucast b;
           nborrow1 = nborrow + (65535 + ucast (c ! nat cp) - (mcarry1 AND 0xFFFF));
           c1 = c[nat cp := ucast (nborrow1 AND 0xFFFF)];
           mcarry2 = drop_bit 16 mcarry1;
           nborrow2 = drop_bit 16 nborrow1 AND 1;
           count1 = count - 1
       in if count1 \<noteq> 0
          then mpi_mulsubuuk_loop c1 (cp + 1) a (ap + 1) b nborrow2 mcarry2 count1
          else Some (c1, cp + 1, nborrow2, mcarry2))"
  by pat_completeness auto
termination
  apply (relation "measure (\<lambda>(c, cp, a, ap, b, nborrow, mcarry, count). unat (count - 1))")
   apply simp
  subgoal for c cp a ap b nborrow mcarry count
    using measure_unat [of "count - 1"] by simp
  done

definition mpi_mulsubuuk ::
  "nat \<Rightarrow> mpi \<Rightarrow> int \<Rightarrow> mpi \<Rightarrow> int \<Rightarrow> 16 word \<Rightarrow> (mpi \<times> 8 word) option" where
  "mpi_mulsubuuk N c cp a ap b =
     (case mpi_mulsubuuk_loop c cp a ap b 1 0 (of_nat N) of
        None \<Rightarrow> None
      | Some (c1, cp1, nborrow, mcarry) \<Rightarrow>
          if \<not> inb c1 cp1 then None
          else
            let nborrow1 = nborrow + (65535 + ucast (c1 ! nat cp1) - (mcarry AND 0xFFFF));
                c2 = c1[nat cp1 := ucast (nborrow1 AND 0xFFFF)];
                nborrow2 = drop_bit 16 nborrow1
            in Some (c2, ucast (nborrow2 AND 1)))"

section \<open>Full multiplication\<close>

text \<open>
  \<^verbatim>\<open>mpi_muluu\<close>: the inner loop adds the 32-bit products \<^verbatim>\<open>*aa++ * *bb--\<close> to the
  64-bit \<^verbatim>\<open>mcarry\<close>; the first outer loop produces the low \<open>N\<close> words with a growing
  inner loop, the second the next \<open>N - 1\<close> words with a shrinking one, and the
  last carry digit is stored after it.
\<close>

function muluu_inner ::
  "mpi \<Rightarrow> int \<Rightarrow> mpi \<Rightarrow> int \<Rightarrow> 64 word \<Rightarrow> 8 word \<Rightarrow> 64 word option" where
  "muluu_inner a aa b bb mcarry count2 =
    (if \<not> (inb a aa \<and> inb b bb) then None
     else
       let mcarry1 = mcarry + ucast ((ucast (a ! nat aa) :: 32 word) * ucast (b ! nat bb));
           count21 = count2 - 1
       in if count21 \<noteq> 0 then muluu_inner a (aa + 1) b (bb - 1) mcarry1 count21
          else Some mcarry1)"
  by pat_completeness auto
termination
  apply (relation "measure (\<lambda>(a, aa, b, bb, mcarry, count2). unat (count2 - 1))")
   apply simp
  subgoal for a aa b bb mcarry count2
    using measure_unat [of "count2 - 1"] by simp
  done

function muluu_loop1 ::
  "mpi \<Rightarrow> int \<Rightarrow> mpi \<Rightarrow> int \<Rightarrow> mpi \<Rightarrow> int \<Rightarrow> 64 word \<Rightarrow> 8 word \<Rightarrow> 8 word
     \<Rightarrow> (mpi \<times> int \<times> int \<times> 64 word \<times> 8 word) option" where
  "muluu_loop1 c cp a ap b bp mcarry count niter2 =
    (let count2 = niter2;
         niter21 = niter2 + 1;
         aa = ap;
         bb = bp;
         bp1 = bp + 1
     in case muluu_inner a aa b bb mcarry count2 of
          None \<Rightarrow> None
        | Some mcarry1 \<Rightarrow>
            if \<not> inb c cp then None
            else
              let c1 = c[nat cp := ucast (mcarry1 AND 0xFFFF)];
                  mcarry2 = drop_bit 16 mcarry1;
                  count1 = count - 1
              in if count1 \<noteq> 0
                 then muluu_loop1 c1 (cp + 1) a ap b bp1 mcarry2 count1 niter21
                 else Some (c1, cp + 1, bp1, mcarry2, niter21))"
  by pat_completeness auto
termination
  apply (relation "measure (\<lambda>(c, cp, a, ap, b, bp, mcarry, count, niter2). unat (count - 1))")
   apply simp
  subgoal for c cp a ap b bp mcarry count niter2
    using measure_unat [of "count - 1"] by simp
  done

function muluu_loop2 ::
  "mpi \<Rightarrow> int \<Rightarrow> mpi \<Rightarrow> int \<Rightarrow> mpi \<Rightarrow> int \<Rightarrow> 64 word \<Rightarrow> 8 word \<Rightarrow> 8 word
     \<Rightarrow> (mpi \<times> int \<times> 64 word) option" where
  "muluu_loop2 c cp a ap b bp mcarry count niter2 =
    (let niter21 = niter2 - 1;
         count2 = niter21;
         ap1 = ap + 1;
         aa = ap1;
         bb = bp
     in case muluu_inner a aa b bb mcarry count2 of
          None \<Rightarrow> None
        | Some mcarry1 \<Rightarrow>
            if \<not> inb c cp then None
            else
              let c1 = c[nat cp := ucast (mcarry1 AND 0xFFFF)];
                  mcarry2 = drop_bit 16 mcarry1;
                  count1 = count - 1
              in if count1 \<noteq> 0
                 then muluu_loop2 c1 (cp + 1) a ap1 b bp mcarry2 count1 niter21
                 else Some (c1, cp + 1, mcarry2))"
  by pat_completeness auto
termination
  apply (relation "measure (\<lambda>(c, cp, a, ap, b, bp, mcarry, count, niter2). unat (count - 1))")
   apply simp
  subgoal for c cp a ap b bp mcarry count niter2
    using measure_unat [of "count - 1"] by simp
  done

definition mpi_muluu :: "nat \<Rightarrow> mpi \<Rightarrow> int \<Rightarrow> mpi \<Rightarrow> int \<Rightarrow> mpi \<Rightarrow> int \<Rightarrow> mpi option" where
  "mpi_muluu N c cp a ap b bp =
     (case muluu_loop1 c cp a ap b bp 0 (of_nat N) 1 of
        None \<Rightarrow> None
      | Some (c1, cp1, bp1, mcarry1, niter2) \<Rightarrow>
          (case muluu_loop2 c1 cp1 a ap b (bp1 - 1) mcarry1 (of_int (int N - 1)) (niter2 - 1) of
             None \<Rightarrow> None
           | Some (c2, cp2, mcarry2) \<Rightarrow>
               if \<not> inb c2 cp2 then None
               else Some (c2[nat cp2 := ucast (mcarry2 AND 0xFFFF)])))"

section \<open>Modulo reduction\<close>

text \<open>
  \<^verbatim>\<open>mpi_moduu\<close>: \<^verbatim>\<open>*a %= *b\<close>.  The pointer \<^verbatim>\<open>pr\<close> walks down the dividend; one
  pass of the loop body is \<open>moduu_step\<close>, which returns the buffer and the new
  value of \<^verbatim>\<open>flag\<close>.  The two statements that add the divisor back and fold
  the carry into \<^verbatim>\<open>pr[MPI_NUMBER_SIZE]\<close> occur twice in the source and are
  \<open>moduu_addback\<close> here; \<open>moduu_flag\<close> is the assignment
  \<^verbatim>\<open>flag = pr[MPI_NUMBER_SIZE-1]!=0\<close>.
\<close>

definition moduu_addback ::
  "nat \<Rightarrow> mpi \<Rightarrow> int \<Rightarrow> mpi \<Rightarrow> int \<Rightarrow> (mpi \<times> 32 word) option" where
  "moduu_addback N a pr b bp =
     (case mpi_add N a pr b bp of
        None \<Rightarrow> None
      | Some (a1, cy) \<Rightarrow>
          if \<not> inb a1 (pr + int N) then None
          else
            let carry = (ucast cy :: 32 word) + ucast (a1 ! nat (pr + int N))
            in Some (a1[nat (pr + int N) := ucast (carry AND 0xFFFF)], carry))"

definition moduu_flag :: "nat \<Rightarrow> mpi \<Rightarrow> int \<Rightarrow> (mpi \<times> 8 word) option" where
  "moduu_flag N a pr =
     (if \<not> inb a (pr + (int N - 1)) then None
      else Some (a, if a ! nat (pr + (int N - 1)) \<noteq> 0 then 1 else 0))"

definition moduu_step ::
  "nat \<Rightarrow> mpi \<Rightarrow> int \<Rightarrow> mpi \<Rightarrow> int \<Rightarrow> 8 word \<Rightarrow> (mpi \<times> 8 word) option" where
  "moduu_step N a pr b bp flag =
     (if flag \<noteq> 0 then
        if \<not> (inb a (pr + int N) \<and> inb a (pr + (int N - 1)) \<and> inb b (bp + (int N - 1)))
        then None
        else if b ! nat (bp + (int N - 1)) = 0 then None
        else
          let pq0 = push_bit 16 (ucast (a ! nat (pr + int N)) :: 32 word)
                      OR ucast (a ! nat (pr + (int N - 1)));
              pq1 = pq0 div ucast (b ! nat (bp + (int N - 1)));
              pq = (if 0xFFFF < pq1 then 0xFFFF else pq1)
          in case mpi_mulsubuuk N a pr b bp (ucast pq) of
               None \<Rightarrow> None
             | Some (a1, nborrow) \<Rightarrow>
                 if nborrow = 0 then
                   (case moduu_addback N a1 pr b bp of
                      None \<Rightarrow> None
                    | Some (a2, carry) \<Rightarrow>
                        if carry AND 0x10000 = 0 then
                          (case moduu_addback N a2 pr b bp of
                             None \<Rightarrow> None
                           | Some (a3, carry2) \<Rightarrow> moduu_flag N a3 pr)
                        else moduu_flag N a2 pr)
                 else moduu_flag N a1 pr
      else
        if \<not> inb a (pr + (int N - 1)) then None
        else if a ! nat (pr + (int N - 1)) \<noteq> 0 then
          (case mpi_cmp N a pr b bp of
             None \<Rightarrow> None
           | Some r \<Rightarrow>
               if 0 \<le>s r then
                 (case mpi_sub N a pr b bp of
                    None \<Rightarrow> None
                  | Some a1 \<Rightarrow> moduu_flag N a1 pr)
               else Some (a, 1))
        else Some (a, flag))"

function mpi_moduu_loop ::
  "nat \<Rightarrow> mpi \<Rightarrow> int \<Rightarrow> mpi \<Rightarrow> int \<Rightarrow> 8 word \<Rightarrow> 8 word \<Rightarrow> mpi option" where
  "mpi_moduu_loop N a pr b bp count flag =
    (case moduu_step N a pr b bp flag of
       None \<Rightarrow> None
     | Some (a1, flag1) \<Rightarrow>
         let pr1 = pr - 1;
             count1 = count - 1
         in if count1 \<noteq> 0 then mpi_moduu_loop N a1 pr1 b bp count1 flag1
            else Some a1)"
  by pat_completeness auto
termination
  apply (relation "measure (\<lambda>(N, a, pr, b, bp, count, flag). unat (count - 1))")
   apply simp
  subgoal for N a pr b bp count flag
    using measure_unat [of "count - 1"] by simp
  done

definition mpi_moduu :: "nat \<Rightarrow> mpi \<Rightarrow> int \<Rightarrow> mpi \<Rightarrow> int \<Rightarrow> mpi option" where
  "mpi_moduu N a ap b bp = mpi_moduu_loop N a (ap + int N) b bp (of_nat (N + 1)) 0"

section \<open>Modular exponentiation\<close>

text \<open>
  \<^verbatim>\<open>memcpy\<close> of \<open>n\<close> words.  \<^verbatim>\<open>mpi_powm65537\<close> has two local arrays,
  \<^verbatim>\<open>bufprod\<close> of \<open>2 * N\<close> words and \<^verbatim>\<open>bufmod\<close> of \<open>N\<close> words, whose initial
  contents are whatever the stack holds; they are parameters of the model.
\<close>

definition memcpy16 :: "mpi \<Rightarrow> int \<Rightarrow> mpi \<Rightarrow> int \<Rightarrow> nat \<Rightarrow> mpi option" where
  "memcpy16 dst dp src sp n =
     (if 0 \<le> dp \<and> dp + int n \<le> int (length dst) \<and> 0 \<le> sp \<and> sp + int n \<le> int (length src)
      then Some (take (nat dp) dst @ take n (drop (nat sp) src) @ drop (nat dp + n) dst)
      else None)"

function powm_loop ::
  "nat \<Rightarrow> mpi \<Rightarrow> mpi \<Rightarrow> mpi \<Rightarrow> int \<Rightarrow> 8 word \<Rightarrow> (mpi \<times> mpi) option" where
  "powm_loop N bufprod bufmod n np count =
    (case mpi_muluu N bufprod 0 bufmod 0 bufmod 0 of
       None \<Rightarrow> None
     | Some bufprod1 \<Rightarrow>
         (case mpi_moduu N bufprod1 0 n np of
            None \<Rightarrow> None
          | Some bufprod2 \<Rightarrow>
              (case memcpy16 bufmod 0 bufprod2 0 N of
                 None \<Rightarrow> None
               | Some bufmod1 \<Rightarrow>
                   let count1 = count - 1
                   in if count1 \<noteq> 0 then powm_loop N bufprod2 bufmod1 n np count1
                      else Some (bufprod2, bufmod1))))"
  by pat_completeness auto
termination
  apply (relation "measure (\<lambda>(N, bufprod, bufmod, n, np, count). unat (count - 1))")
   apply simp
  subgoal for N bufprod bufmod n np count
    using measure_unat [of "count - 1"] by simp
  done

definition mpi_powm65537 ::
  "nat \<Rightarrow> mpi \<Rightarrow> mpi \<Rightarrow> mpi \<Rightarrow> int \<Rightarrow> mpi \<Rightarrow> int \<Rightarrow> mpi option" where
  "mpi_powm65537 N bufprod bufmod m mp n np =
     (case memcpy16 bufmod 0 m mp N of
        None \<Rightarrow> None
      | Some bufmod0 \<Rightarrow>
          (case powm_loop N bufprod bufmod0 n np 16 of
             None \<Rightarrow> None
           | Some (bufprod1, bufmod1) \<Rightarrow>
               (case mpi_muluu N bufprod1 0 bufmod1 0 m mp of
                  None \<Rightarrow> None
                | Some bufprod2 \<Rightarrow>
                    (case mpi_moduu N bufprod2 0 n np of
                       None \<Rightarrow> None
                     | Some bufprod3 \<Rightarrow> memcpy16 m mp bufprod3 0 N))))"

section \<open>Notions used in the statements and proofs\<close>

text \<open>The sum of products one run of the inner loop of \<open>mpi_muluu\<close> adds to the carry.\<close>

definition dot :: "mpi \<Rightarrow> nat \<Rightarrow> mpi \<Rightarrow> nat \<Rightarrow> nat \<Rightarrow> nat" where
  "dot a i b j n = (\<Sum>t<n. unat (a ! (i + t)) * unat (b ! (j - t)))"

text \<open>The contribution of the word pair \<open>(i, j)\<close> to the product of two numbers.\<close>

definition term_prod :: "mpi \<Rightarrow> mpi \<Rightarrow> nat \<times> nat \<Rightarrow> nat" where
  "term_prod a b = (\<lambda>(i, j). unat (a ! i) * unat (b ! j) * 65536 ^ (i + j))"

section \<open>Auxiliary facts about words and windows\<close>

declare mpi_add_loop.simps [simp del] mpi_sub_loop.simps [simp del] mpi_cmp_loop.simps [simp del]

lemma unat16_lt: "unat (x :: 16 word) < 65536"
  using unsigned_less [of x, where 'a = nat] by simp

lemma mask16_32: "(0xFFFF :: 32 word) = mask 16"
  by (simp add: mask_eq_exp_minus_1)

lemma unat_low16_32: "unat (ucast ((w :: 32 word) AND 0xFFFF) :: 16 word) = unat w mod 65536"
  unfolding mask16_32
  by (simp add: unsigned_ucast_eq take_bit_eq_mod unsigned_and_eq unsigned_take_bit_eq unat_mod
      flip: take_bit_eq_mask)

lemma unat_shift16_32: "unat (drop_bit 16 (w :: 32 word)) = unat w div 65536"
  by (simp add: unat_drop_bit_eq drop_bit_eq_div unat_div)

lemma unat_ucast_16_32: "unat (ucast (x :: 16 word) :: 32 word) = unat x"
  using unat16_lt [of x] by (simp add: unsigned_ucast_eq take_bit_eq_mod)

lemma val_append: "val (xs @ ys) = val xs + 65536 ^ length xs * val ys"
  by (induction xs) (simp_all add: algebra_simps)

lemma val_bound: "val xs < 65536 ^ length xs"
proof (induction xs)
  case Nil
  show ?case by simp
next
  case (Cons x xs)
  have "unat x + 65536 * val xs < 65536 + 65536 * val xs"
    using unat16_lt [of x] by simp
  also have "\<dots> = 65536 * (val xs + 1)" by simp
  also have "\<dots> \<le> 65536 * 65536 ^ length xs"
    using Cons.IH by (intro mult_le_mono2) simp
  finally show ?case by simp
qed

lemma length_window: "p + n \<le> length m \<Longrightarrow> length (window m p n) = n"
  by (simp add: window_def)

lemma window_Suc:
  "p < length m \<Longrightarrow> window m p (Suc n) = m ! p # window m (Suc p) n"
  by (simp add: window_def flip: Cons_nth_drop_Suc)

lemma window_update_below: "i < p \<Longrightarrow> window (m[i := v]) p n = window m p n"
  by (simp add: window_def)

lemma unat_word8_of_nat: "n \<le> 255 \<Longrightarrow> unat (of_nat n :: 8 word) = n"
  by (simp add: unat_of_nat)

lemma word8_of_nat_eq0: "n \<le> 255 \<Longrightarrow> (of_nat n :: 8 word) = 0 \<longleftrightarrow> n = 0"
  using unat_word8_of_nat [of n] by (auto simp flip: unat_eq_zero)

lemma int_Suc_eq: "int d + 1 = int (Suc d)"
  by simp

section \<open>Addition, subtraction and comparison\<close>

lemma add_word_step:
  fixes x y :: "16 word" and c :: "32 word"
  assumes "unat c \<le> 1"
  shows "unat (c + (ucast x + ucast y)) = unat c + unat x + unat y"
proof -
  have "unat (ucast x + ucast y :: 32 word) = unat x + unat y"
    using unat16_lt [of x] unat16_lt [of y]
    by (simp add: unat_word_ariths unat_ucast_16_32)
  then show ?thesis
    using assms unat16_lt [of x] unat16_lt [of y]
    by (simp add: unat_word_ariths)
qed

lemma window_0: "window m p 0 = []"
  by (simp add: window_def)

lemma window_update_here:
  "d < length m \<Longrightarrow> window (m[d := w]) d (Suc n) = w # window m (Suc d) n"
  by (simp add: window_Suc) (simp add: window_def)

lemma window_cong_take:
  assumes "take (Suc d) xs = take (Suc d) ys" "d < length xs" "d < length ys"
  shows "xs ! d = ys ! d" "take d xs = take d ys"
proof -
  show "xs ! d = ys ! d"
    using assms by (metis lessI nth_take)
  show "take d xs = take d ys"
    using assms by (metis take_Suc_conv_app_nth append1_eq_conv)
qed

lemma add_carry_step:
  fixes x y :: "16 word" and c :: "32 word"
  assumes "unat c \<le> 1"
  defines "c1 \<equiv> c + (ucast x + ucast y)"
  shows "unat (ucast (c1 AND 0xFFFF) :: 16 word) + 65536 * unat (drop_bit 16 c1)
           = unat c + unat x + unat y"
    and "unat (drop_bit 16 c1) \<le> 1"
proof -
  have c1: "unat c1 = unat c + unat x + unat y"
    unfolding c1_def using assms(1) by (rule add_word_step)
  show "unat (ucast (c1 AND 0xFFFF) :: 16 word) + 65536 * unat (drop_bit 16 c1)
           = unat c + unat x + unat y"
    by (simp add: unat_low16_32 unat_shift16_32 c1)
  have "unat c1 < 2 * 65536"
    using c1 assms(1) unat16_lt [of x] unat16_lt [of y] by simp
  then show "unat (drop_bit 16 c1) \<le> 1"
    by (simp add: unat_shift16_32)
qed

lemma mpi_add_loop_correct:
  assumes "n \<le> 254" "d + Suc n \<le> length dest" "s + Suc n \<le> length src" "unat c \<le> 1"
  shows "\<exists>dest' c'. mpi_add_loop dest (int d) src (int s) c (of_nat (Suc n)) = Some (dest', c')
           \<and> length dest' = length dest \<and> take d dest' = take d dest
           \<and> drop (d + Suc n) dest' = drop (d + Suc n) dest \<and> unat c' \<le> 1
           \<and> val (window dest' d (Suc n)) + 65536 ^ Suc n * unat c'
               = val (window dest d (Suc n)) + val (window src s (Suc n)) + unat c"
  using assms
proof (induction n arbitrary: dest d s c)
  case 0
  define c1 where "c1 = c + (ucast (dest ! d) + ucast (src ! s))"
  note st = add_carry_step [OF \<open>unat c \<le> 1\<close>, of "dest ! d" "src ! s", folded c1_def]
  have "mpi_add_loop dest (int d) src (int s) c (of_nat (Suc 0))
          = Some (dest[d := ucast (c1 AND 0xFFFF)], drop_bit 16 c1)"
    using 0 by (subst mpi_add_loop.simps) (simp add: inb_def Let_def c1_def)
  then show ?case
    using 0 st by (simp add: window_update_here window_Suc window_0)
next
  case (Suc n)
  define c1 where "c1 = c + (ucast (dest ! d) + ucast (src ! s))"
  define w :: "16 word" where "w = ucast (c1 AND 0xFFFF)"
  define dest1 where "dest1 = dest[d := w]"
  note st = add_carry_step [OF \<open>unat c \<le> 1\<close>, of "dest ! d" "src ! s", folded c1_def, folded w_def]
  have cnt: "(of_nat (Suc (Suc n)) :: 8 word) - 1 = of_nat (Suc n)" by simp
  have nz: "(of_nat (Suc n) :: 8 word) \<noteq> 0"
    using Suc.prems(1) word8_of_nat_eq0 [of "Suc n"] by simp
  have unf: "mpi_add_loop dest (int d) src (int s) c (of_nat (Suc (Suc n)))
          = mpi_add_loop dest1 (int (Suc d)) src (int (Suc s)) (drop_bit 16 c1) (of_nat (Suc n))"
    using Suc.prems nz
    by (subst mpi_add_loop.simps)
       (simp add: inb_def Let_def c1_def w_def dest1_def cnt int_Suc_eq del: of_nat_Suc)
  from Suc.IH [of "Suc d" dest1 "Suc s" "drop_bit 16 c1"] Suc.prems st(2)
  obtain dest' c' where
    r: "mpi_add_loop dest1 (int (Suc d)) src (int (Suc s)) (drop_bit 16 c1) (of_nat (Suc n)) = Some (dest', c')"
    and len: "length dest' = length dest1"
    and tk: "take (Suc d) dest' = take (Suc d) dest1"
    and dr: "drop (Suc d + Suc n) dest' = drop (Suc d + Suc n) dest1"
    and c': "unat c' \<le> 1"
    and v: "val (window dest' (Suc d) (Suc n)) + 65536 ^ Suc n * unat c'
               = val (window dest1 (Suc d) (Suc n)) + val (window src (Suc s) (Suc n)) + unat (drop_bit 16 c1)"
    by (auto simp: dest1_def)
  have dlt: "d < length dest" "d < length dest'" "d < length dest1" "s < length src"
    using Suc.prems len by (simp_all add: dest1_def)
  have nth: "dest' ! d = w" and tk': "take d dest' = take d dest"
    using window_cong_take [OF tk dlt(2) dlt(3)] dlt by (simp_all add: dest1_def)
  have w1: "window dest1 (Suc d) (Suc n) = window dest (Suc d) (Suc n)"
    by (simp add: dest1_def window_update_below)
  have "val (window dest' d (Suc (Suc n))) + 65536 ^ Suc (Suc n) * unat c'
      = unat w + 65536 * (val (window dest' (Suc d) (Suc n)) + 65536 ^ Suc n * unat c')"
    using dlt nth by (simp add: window_Suc [of d dest'] algebra_simps)
  also have "\<dots> = unat w + 65536 * unat (drop_bit 16 c1)
        + 65536 * (val (window dest (Suc d) (Suc n)) + val (window src (Suc s) (Suc n)))"
    by (simp only: v w1) (simp add: algebra_simps)
  also have "\<dots> = val (window dest d (Suc (Suc n))) + val (window src s (Suc (Suc n))) + unat c"
    using dlt st(1) by (simp add: window_Suc [of d dest] window_Suc [of s src] algebra_simps)
  finally have "val (window dest' d (Suc (Suc n))) + 65536 ^ Suc (Suc n) * unat c'
      = val (window dest d (Suc (Suc n))) + val (window src s (Suc (Suc n))) + unat c" .
  moreover have "drop (d + Suc (Suc n)) dest' = drop (d + Suc (Suc n)) dest"
    using dr by (simp add: dest1_def)
  ultimately show ?case
    using unf r len tk' c' by (simp add: dest1_def)
qed


lemma unat_and1_32: "unat ((w :: 32 word) AND 1) = unat w mod 2"
  by (simp add: and_one_eq unat_mod)

lemma sub_word_step:
  fixes x y :: "16 word" and c :: "32 word"
  assumes "unat c \<le> 1"
  shows "unat (c + (65535 + ucast x - ucast y)) = unat c + 65535 + unat x - unat y"
proof -
  have a: "unat (65535 + ucast x :: 32 word) = 65535 + unat x"
    using unat16_lt [of x] by (simp add: unat_word_ariths unat_ucast_16_32)
  have "unat (ucast y :: 32 word) \<le> unat (65535 + ucast x :: 32 word)"
    using unat16_lt [of y] by (simp add: a unat_ucast_16_32)
  then have b: "unat (65535 + ucast x - ucast y :: 32 word) = 65535 + unat x - unat y"
    by (simp add: unat_sub word_le_nat_alt a unat_ucast_16_32)
  show ?thesis
    using assms unat16_lt [of x] unat16_lt [of y]
    by (simp add: unat_word_ariths(1) b)
qed

lemma sub_borrow_step:
  fixes x y :: "16 word" and c :: "32 word"
  assumes "unat c \<le> 1"
  defines "c1 \<equiv> c + (65535 + ucast x - ucast y)"
  shows "unat (ucast (c1 AND 0xFFFF) :: 16 word) + unat y + 65536 * unat (drop_bit 16 c1 AND 1) + 1
           = unat x + unat c + 65536"
    and "unat (drop_bit 16 c1 AND 1) \<le> 1"
proof -
  have c1: "unat c1 = unat c + 65535 + unat x - unat y"
    unfolding c1_def using assms(1) by (rule sub_word_step)
  have lt: "unat c1 < 2 * 65536"
    using c1 assms(1) unat16_lt [of x] unat16_lt [of y] by simp
  then have d: "unat (drop_bit 16 c1 AND 1) = unat c1 div 65536"
    by (simp add: unat_and1_32 unat_shift16_32)
  have "unat c1 mod 65536 + 65536 * (unat c1 div 65536) = unat c1"
    by simp
  then show "unat (ucast (c1 AND 0xFFFF) :: 16 word) + unat y + 65536 * unat (drop_bit 16 c1 AND 1) + 1
           = unat x + unat c + 65536"
    using unat16_lt [of y] by (simp add: unat_low16_32 d c1)
  show "unat (drop_bit 16 c1 AND 1) \<le> 1"
    using lt by (simp add: d)
qed

lemma mpi_sub_loop_correct:
  assumes "n \<le> 254" "d + Suc n \<le> length dest" "s + Suc n \<le> length src" "unat c \<le> 1"
  shows "\<exists>dest' c'. mpi_sub_loop dest (int d) src (int s) c (of_nat (Suc n)) = Some dest'
           \<and> length dest' = length dest \<and> take d dest' = take d dest
           \<and> drop (d + Suc n) dest' = drop (d + Suc n) dest \<and> c' \<le> (1::nat)
           \<and> val (window dest' d (Suc n)) + val (window src s (Suc n)) + 65536 ^ Suc n * c' + 1
               = val (window dest d (Suc n)) + unat c + 65536 ^ Suc n"
  using assms
proof (induction n arbitrary: dest d s c)
  case 0
  define c1 where "c1 = c + (65535 + ucast (dest ! d) - ucast (src ! s))"
  note st = sub_borrow_step [OF \<open>unat c \<le> 1\<close>, of "dest ! d" "src ! s", folded c1_def]
  have "mpi_sub_loop dest (int d) src (int s) c (of_nat (Suc 0))
          = Some (dest[d := ucast (c1 AND 0xFFFF)])"
    using 0 by (subst mpi_sub_loop.simps) (simp add: inb_def Let_def c1_def)
  then show ?case
    using 0 st
    by (intro exI [of _ "dest[d := ucast (c1 AND 0xFFFF)]"] exI [of _ "unat (drop_bit 16 c1 AND 1)"])
       (simp add: window_update_here window_Suc window_0)
next
  case (Suc n)
  define c1 where "c1 = c + (65535 + ucast (dest ! d) - ucast (src ! s))"
  define w :: "16 word" where "w = ucast (c1 AND 0xFFFF)"
  define c2 where "c2 = drop_bit 16 c1 AND 1"
  define dest1 where "dest1 = dest[d := w]"
  note st = sub_borrow_step [OF \<open>unat c \<le> 1\<close>, of "dest ! d" "src ! s", folded c1_def,
      folded w_def c2_def]
  have cnt: "(of_nat (Suc (Suc n)) :: 8 word) - 1 = of_nat (Suc n)" by simp
  have nz: "(of_nat (Suc n) :: 8 word) \<noteq> 0"
    using Suc.prems(1) word8_of_nat_eq0 [of "Suc n"] by simp
  have unf: "mpi_sub_loop dest (int d) src (int s) c (of_nat (Suc (Suc n)))
          = mpi_sub_loop dest1 (int (Suc d)) src (int (Suc s)) c2 (of_nat (Suc n))"
    using Suc.prems nz
    by (subst mpi_sub_loop.simps)
       (simp add: inb_def Let_def c1_def w_def c2_def dest1_def cnt int_Suc_eq del: of_nat_Suc)
  from Suc.IH [of "Suc d" dest1 "Suc s" c2] Suc.prems st(2)
  obtain dest' c' where
    r: "mpi_sub_loop dest1 (int (Suc d)) src (int (Suc s)) c2 (of_nat (Suc n)) = Some dest'"
    and len: "length dest' = length dest1"
    and tk: "take (Suc d) dest' = take (Suc d) dest1"
    and dr: "drop (Suc d + Suc n) dest' = drop (Suc d + Suc n) dest1"
    and c': "c' \<le> 1"
    and v: "val (window dest' (Suc d) (Suc n)) + val (window src (Suc s) (Suc n)) + 65536 ^ Suc n * c' + 1
               = val (window dest1 (Suc d) (Suc n)) + unat c2 + 65536 ^ Suc n"
    by (auto simp: dest1_def)
  have dlt: "d < length dest" "d < length dest'" "d < length dest1" "s < length src"
    using Suc.prems len by (simp_all add: dest1_def)
  have nth: "dest' ! d = w" and tk': "take d dest' = take d dest"
    using window_cong_take [OF tk dlt(2) dlt(3)] dlt by (simp_all add: dest1_def)
  have w1: "window dest1 (Suc d) (Suc n) = window dest (Suc d) (Suc n)"
    by (simp add: dest1_def window_update_below)
  have "val (window dest' d (Suc (Suc n))) + val (window src s (Suc (Suc n)))
           + 65536 ^ Suc (Suc n) * c' + 1 + 65536
      = (unat w + unat (src ! s) + 1)
        + 65536 * (val (window dest' (Suc d) (Suc n)) + val (window src (Suc s) (Suc n))
                   + 65536 ^ Suc n * c' + 1)"
    using dlt nth by (simp add: window_Suc [of d dest'] window_Suc [of s src] algebra_simps)
  also have "\<dots> = (unat w + unat (src ! s) + 65536 * unat c2 + 1)
        + 65536 * (val (window dest (Suc d) (Suc n)) + 65536 ^ Suc n)"
    by (simp only: v w1) (simp add: algebra_simps)
  also have "\<dots> = val (window dest d (Suc (Suc n))) + unat c + 65536 ^ Suc (Suc n) + 65536"
    using dlt by (simp only: st(1)) (simp add: window_Suc [of d dest] algebra_simps)
  finally have "val (window dest' d (Suc (Suc n))) + val (window src s (Suc (Suc n)))
           + 65536 ^ Suc (Suc n) * c' + 1
      = val (window dest d (Suc (Suc n))) + unat c + 65536 ^ Suc (Suc n)"
    by simp
  moreover have "drop (d + Suc (Suc n)) dest' = drop (d + Suc (Suc n)) dest"
    using dr by (simp add: dest1_def)
  ultimately show ?case
    using unf r len tk' c' by (auto simp: dest1_def)
qed

lemma uint16_bounds: "0 \<le> uint (x :: 16 word)" "uint (x :: 16 word) < 65536"
  using unsigned_less [of x, where 'a = int] by simp_all

lemma sint_ucast_16_32: "sint (ucast (x :: 16 word) :: 32 word) = uint x"
proof -
  have "uint (ucast x :: 32 word) = uint x"
    using uint16_bounds [of x] by (simp add: unsigned_ucast_eq take_bit_eq_mod)
  moreover have "- 2147483648 \<le> uint x \<and> uint x < 2147483648"
    using uint16_bounds [of x] by linarith
  ultimately show ?thesis
    by (simp add: sint_uint signed_take_bit_int_eq_self_iff)
qed

lemma sint_dif:
  fixes x y :: "16 word"
  shows "sint (ucast x - ucast y :: 32 word) = uint x - uint y"
proof -
  have "- 2147483648 \<le> uint x - uint y \<and> uint x - uint y < 2147483648"
    using uint16_bounds [of x] uint16_bounds [of y] by linarith
  then show ?thesis
    by (simp add: sint_word_diff sint_ucast_16_32 signed_take_bit_int_eq_self_iff)
qed

lemma dif_eq0: 
  fixes x y :: "16 word"
  shows "(ucast x - ucast y :: 32 word) = 0 \<longleftrightarrow> x = y"
proof
  assume "(ucast x - ucast y :: 32 word) = 0"
  then have "sint (ucast x - ucast y :: 32 word) = 0" by simp
  then have "uint x = uint y" by (simp add: sint_dif)
  then show "x = y" by (simp add: word_uint_eq_iff)
qed simp

lemma dif_pos:
  fixes x y :: "16 word"
  shows "0 <s (ucast x - ucast y :: 32 word) \<longleftrightarrow> unat y < unat x"
  by (simp add: word_sless_alt sint_dif word_less_nat_alt flip: word_less_def)

lemma window_snoc:
  "p + n < length m \<Longrightarrow> window m p (Suc n) = window m p n @ [m ! (p + n)]"
  by (simp add: window_def take_Suc_conv_app_nth)

lemma msw_decides:
  fixes lo1 lo2 M x y :: nat
  assumes "lo1 < M" "lo2 < M" "y < x"
  shows "lo2 + M * y < lo1 + M * x"
proof -
  have "lo2 + M * y < M * Suc y" using assms(2) by simp
  also have "\<dots> \<le> M * x" using assms(3) by (intro mult_le_mono2) simp
  finally show ?thesis by simp
qed

lemma ucast_eq_16_32: "(ucast (x :: 16 word) :: 32 word) = ucast y \<longleftrightarrow> x = y"
  using dif_eq0 [of x y] by simp

lemma mpi_cmp_loop_correct:
  assumes "k \<le> 254" "p + k < length a" "q + k < length b"
  shows "mpi_cmp_loop a (int (p + k)) b (int (q + k)) (of_nat (Suc k)) =
           Some (if val (window b q (Suc k)) < val (window a p (Suc k)) then 1
                 else if val (window a p (Suc k)) < val (window b q (Suc k)) then - 1 else 0)"
  using assms
proof (induction k)
  case 0
  have r: "mpi_cmp_loop a (int (p + 0)) b (int (q + 0)) (of_nat (Suc 0))
        = Some (if a ! p = b ! q then 0 else if unat (b ! q) < unat (a ! p) then 1 else - 1)"
    using 0
    by (subst mpi_cmp_loop.simps) (simp add: inb_def Let_def ucast_eq_16_32 dif_pos)
  have v: "val (window a p (Suc 0)) = unat (a ! p)" "val (window b q (Suc 0)) = unat (b ! q)"
    using 0 by (simp_all add: window_Suc window_0)
  show ?case
  proof (cases "a ! p = b ! q")
    case True
    then show ?thesis unfolding r v by simp
  next
    case False
    then have "unat (a ! p) \<noteq> unat (b ! q)" by (simp add: word_unat_eq_iff)
    then show ?thesis unfolding r v using False by auto
  qed
next
  case (Suc k)
  let ?x = "a ! (p + Suc k)" and ?y = "b ! (q + Suc k)"
  have wa: "val (window a p (Suc (Suc k))) = val (window a p (Suc k)) + 65536 ^ Suc k * unat ?x"
    using Suc.prems by (simp add: window_snoc [of p "Suc k"] val_append length_window)
  have wb: "val (window b q (Suc (Suc k))) = val (window b q (Suc k)) + 65536 ^ Suc k * unat ?y"
    using Suc.prems by (simp add: window_snoc [of q "Suc k"] val_append length_window)
  have la: "val (window a p (Suc k)) < 65536 ^ Suc k"
    using val_bound [of "window a p (Suc k)"] Suc.prems by (simp add: length_window)
  have lb: "val (window b q (Suc k)) < 65536 ^ Suc k"
    using val_bound [of "window b q (Suc k)"] Suc.prems by (simp add: length_window)
  have cnt: "(of_nat (Suc (Suc k)) :: 8 word) - 1 = of_nat (Suc k)" by simp
  have nz: "(of_nat (Suc k) :: 8 word) \<noteq> 0"
    using Suc.prems(1) word8_of_nat_eq0 [of "Suc k"] by simp
  have idx: "int (Suc (p + k)) - 1 = int (p + k)" "int (Suc (q + k)) - 1 = int (q + k)"
    by simp_all
  show ?case
  proof (cases "?x = ?y")
    case True
    have "mpi_cmp_loop a (int (p + Suc k)) b (int (q + Suc k)) (of_nat (Suc (Suc k)))
        = mpi_cmp_loop a (int (p + k)) b (int (q + k)) (of_nat (Suc k))"
      using Suc.prems nz True
      by (subst mpi_cmp_loop.simps)
         (simp add: inb_def Let_def ucast_eq_16_32 cnt idx del: of_nat_Suc of_nat_add)
    also have "\<dots> = Some (if val (window b q (Suc k)) < val (window a p (Suc k)) then 1
                 else if val (window a p (Suc k)) < val (window b q (Suc k)) then - 1 else 0)"
      using Suc.prems by (intro Suc.IH) simp_all
    finally show ?thesis
      using True by (simp only: wa wb) simp
  next
    case False
    then have ne: "unat ?x \<noteq> unat ?y" by (simp add: word_unat_eq_iff)
    have r: "mpi_cmp_loop a (int (p + Suc k)) b (int (q + Suc k)) (of_nat (Suc (Suc k)))
        = Some (if unat ?y < unat ?x then 1 else - 1)"
      using Suc.prems False
      by (subst mpi_cmp_loop.simps)
         (simp add: inb_def Let_def ucast_eq_16_32 dif_pos del: of_nat_Suc)
    show ?thesis
    proof (cases "unat ?y < unat ?x")
      case True
      then have "val (window b q (Suc (Suc k))) < val (window a p (Suc (Suc k)))"
        unfolding wa wb using la lb by (intro msw_decides)
      then show ?thesis using r True by simp
    next
      case False
      then have lt: "unat ?x < unat ?y" using ne by simp
      then have "val (window a p (Suc (Suc k))) < val (window b q (Suc (Suc k)))"
        unfolding wa wb using la lb by (intro msw_decides)
      then show ?thesis using r False by simp
    qed
  qed
qed

lemma window_whole: "length m = n \<Longrightarrow> window m 0 n = m"
  by (simp add: window_def)

lemma pow65536: "(65536 :: nat) ^ n = 2 ^ (16 * n)"
  by (simp add: power_mult)

lemma val_inj: "length xs = length ys \<Longrightarrow> val xs = val ys \<Longrightarrow> xs = ys"
proof (induction xs ys rule: list_induct2)
  case Nil
  show ?case by simp
next
  case (Cons x xs y ys)
  have "(unat x + 65536 * val xs) mod 65536 = (unat y + 65536 * val ys) mod 65536"
    using Cons.prems by simp
  then have xy: "unat x = unat y"
    using unat16_lt [of x] unat16_lt [of y] by simp
  then have "val xs = val ys" using Cons.prems by simp
  then show ?case using xy Cons.IH by (simp add: word_unat_eq_iff)
qed

lemma val_replicate_max: "val (replicate n 0xFFFF) + 1 = 65536 ^ n"
  by (induction n) simp_all

lemma word32_le1_cases: "unat (c :: 32 word) \<le> 1 \<Longrightarrow> c = 0 \<or> c = 1"
proof -
  assume "unat c \<le> 1"
  then have "unat c = unat (0 :: 32 word) \<or> unat c = unat (1 :: 32 word)" by auto
  then show ?thesis by (simp only: word_unat_eq_iff)
qed

lemma unat_carry_flag: "unat (c :: 32 word) \<le> 1 \<Longrightarrow> unat (ucast (c AND 1) :: 8 word) = unat c"
  using word32_le1_cases [of c] by auto

lemma mpi_add_correct:
  assumes "0 < N" "N \<le> 255" "d + N \<le> length dest" "s + N \<le> length src"
  shows "\<exists>dest' cy. mpi_add N dest (int d) src (int s) = Some (dest', cy)
           \<and> length dest' = length dest \<and> take d dest' = take d dest
           \<and> drop (d + N) dest' = drop (d + N) dest \<and> unat cy \<le> 1
           \<and> val (window dest' d N) + 65536 ^ N * unat cy
               = val (window dest d N) + val (window src s N)"
proof -
  obtain n where N: "N = Suc n" using assms(1) by (cases N) simp_all
  have "unat (0 :: 32 word) \<le> 1" by simp
  from mpi_add_loop_correct [OF _ _ _ this, of n d dest s src] assms
  obtain dest' c' where
    "mpi_add_loop dest (int d) src (int s) 0 (of_nat N) = Some (dest', c')"
    "length dest' = length dest" "take d dest' = take d dest"
    "drop (d + N) dest' = drop (d + N) dest" "unat c' \<le> 1"
    "val (window dest' d N) + 65536 ^ N * unat c' = val (window dest d N) + val (window src s N)"
    unfolding N by auto
  then show ?thesis
    by (simp add: mpi_add_def unat_carry_flag)
qed

lemma mpi_sub_correct:
  assumes "0 < N" "N \<le> 255" "d + N \<le> length dest" "s + N \<le> length src"
  shows "\<exists>dest'. mpi_sub N dest (int d) src (int s) = Some dest'
           \<and> length dest' = length dest \<and> take d dest' = take d dest
           \<and> drop (d + N) dest' = drop (d + N) dest
           \<and> int (val (window dest' d N))
               = (int (val (window dest d N)) - int (val (window src s N))) mod 65536 ^ N"
proof -
  obtain n where N: "N = Suc n" using assms(1) by (cases N) simp_all
  have "unat (1 :: 32 word) \<le> 1" by simp
  from mpi_sub_loop_correct [OF _ _ _ this, of n d dest s src] assms
  obtain dest' c' where r:
    "mpi_sub_loop dest (int d) src (int s) 1 (of_nat N) = Some dest'"
    "length dest' = length dest" "take d dest' = take d dest"
    "drop (d + N) dest' = drop (d + N) dest" and c': "c' \<le> (1::nat)"
    and v: "val (window dest' d N) + val (window src s N) + 65536 ^ N * c' + 1
       = val (window dest d N) + unat (1 :: 32 word) + 65536 ^ N"
    unfolding N by auto
  let ?V' = "int (val (window dest' d N))" and ?V = "int (val (window dest d N))"
  let ?S = "int (val (window src s N))"
  have "int (val (window dest' d N) + val (window src s N) + 65536 ^ N * c' + 1)
       = int (val (window dest d N) + unat (1 :: 32 word) + 65536 ^ N)"
    using v by (rule arg_cong)
  then have e: "?V' = (?V - ?S) + (1 - int c') * 65536 ^ N"
    by (simp add: algebra_simps)
  have "length (window dest' d N) = N"
    using assms r(2) by (simp add: length_window)
  then have "val (window dest' d N) < 65536 ^ N"
    using val_bound [of "window dest' d N"] by simp
  then have "?V' < 65536 ^ N"
    by (metis of_nat_less_iff of_nat_numeral of_nat_power)
  then have "?V' = ?V' mod 65536 ^ N" by simp
  also have "\<dots> = (?V - ?S) mod 65536 ^ N"
    by (subst e) simp
  finally show ?thesis
    using r by (simp add: mpi_sub_def)
qed

lemma mpi_cmp_correct:
  assumes "0 < N" "N \<le> 255" "p + N \<le> length a" "q + N \<le> length b"
  shows "mpi_cmp N a (int p) b (int q) =
           Some (if val (window b q N) < val (window a p N) then 1
                 else if val (window a p N) < val (window b q N) then - 1 else 0)"
proof -
  obtain k where N: "N = Suc k" using assms(1) by (cases N) simp_all
  have "mpi_cmp N a (int p) b (int q)
      = mpi_cmp_loop a (int (p + k)) b (int (q + k)) (of_nat (Suc k))"
    by (simp add: mpi_cmp_def N del: of_nat_Suc) (simp add: algebra_simps)
  then show ?thesis
    using mpi_cmp_loop_correct [of k p a q b] assms unfolding N by simp
qed

text \<open>
  C5.  For single-width \<open>dest\<close> and \<open>src\<close>, \<open>mpi_add\<close> stores
  \<open>(dest + src) mod 2^(16N)\<close> into \<open>dest\<close> and returns carry 1 exactly when the
  true sum exceeds \<open>2^(16N) - 1\<close>, and 0 otherwise; adding 1 to the all-\<open>0xFFFF\<close>
  operand returns carry 1.
\<close>

theorem mpi_add_carry:
  assumes "0 < N" "N \<le> 255" "length dest = N" "length src = N"
  shows "\<exists>dest' carry. mpi_add N dest 0 src 0 = Some (dest', carry)
           \<and> length dest' = N
           \<and> val dest' = (val dest + val src) mod 2 ^ (16 * N)
           \<and> (carry = 1 \<longleftrightarrow> 2 ^ (16 * N) - 1 < val dest + val src)
           \<and> (carry = 0 \<longleftrightarrow> val dest + val src \<le> 2 ^ (16 * N) - 1)
           \<and> (dest = replicate N 0xFFFF \<and> val src = 1 \<longrightarrow> carry = 1)"
proof -
  from mpi_add_correct [of N 0 dest 0 src] assms
  obtain dest' cy where r: "mpi_add N dest 0 src 0 = Some (dest', cy)"
    and len: "length dest' = N" and cy: "unat cy \<le> 1"
    and v: "val dest' + 65536 ^ N * unat cy = val dest + val src"
    by (auto simp: window_whole)
  have b: "val dest' < 65536 ^ N"
    using val_bound [of dest'] len by simp
  have cases: "cy = 0 \<or> cy = 1"
  proof -
    have "unat cy = unat (0 :: 8 word) \<or> unat cy = unat (1 :: 8 word)" using cy by auto
    then show ?thesis by (simp only: word_unat_eq_iff)
  qed
  have m: "val dest' = (val dest + val src) mod 65536 ^ N"
    using b by (simp flip: v)
  have c1: "cy = 1 \<longleftrightarrow> 65536 ^ N - 1 < val dest + val src"
    using cases b by (auto simp flip: v)
  have c0: "cy = 0 \<longleftrightarrow> val dest + val src \<le> 65536 ^ N - 1"
    using cases b by (auto simp flip: v)
  have top: "cy = 1" if "dest = replicate N 0xFFFF" "val src = 1"
  proof -
    have "val dest + val src = 65536 ^ N"
      using that val_replicate_max [of N] by simp
    then show ?thesis using c1 by simp
  qed
  show ?thesis
    using r len m c1 c0 top by (simp add: pow65536)
qed

theorem mpi_add_carry_witness:
  "0 < (2::nat) \<and> (2::nat) \<le> 255 \<and> length [0xFFFF, 0xFFFF :: 16 word] = 2 \<and> length [1, 0 :: 16 word] = 2
   \<and> mpi_add 2 [0xFFFF, 0xFFFF] 0 [1, 0] 0 = Some ([0, 0], 1)"
  using mpi_add_carry [of 2 "[0xFFFF, 0xFFFF]" "[1, 0]"]
  by (simp add: mpi_add_def mpi_add_loop.simps inb_def)

lemma wrap_inverse:
  fixes s a b k M d :: nat
  assumes "s + M * k = a + b" "a < M" "int d = (int s - int b) mod int M"
  shows "d = a"
proof -
  have "int (s + M * k) = int (a + b)" using assms(1) by (rule arg_cong)
  then have "int s - int b = int a - int k * int M" by (simp add: algebra_simps)
  then have "int d = (int a - int k * int M) mod int M" using assms(3) by simp
  also have "\<dots> = int a mod int M" by algebra
  also have "\<dots> = int a" using assms(2) by simp
  finally show ?thesis by simp
qed

lemma sub_after_add:
  assumes "0 < N" "N \<le> 255" "length a = N" "length b = N"
    and "mpi_add N a 0 b 0 = Some (s, c)"
  shows "mpi_sub N s 0 b 0 = Some a"
proof -
  from mpi_add_correct [of N 0 a 0 b] assms
  have len: "length s = N"
    and v: "val s + 65536 ^ N * unat c = val a + val b"
    by (auto simp: window_whole)
  from mpi_sub_correct [of N 0 s 0 b] assms len
  obtain d' where r: "mpi_sub N s 0 b 0 = Some d'" and len': "length d' = N"
    and v': "int (val d') = (int (val s) - int (val b)) mod 65536 ^ N"
    by (auto simp: window_whole)
  have b: "val a < 65536 ^ N" using val_bound [of a] assms by simp
  have "int (val d') = (int (val s) - int (val b)) mod int (65536 ^ N)"
    using v' by simp
  with v b have "val d' = val a" by (rule wrap_inverse)
  then have "d' = a" using len' assms by (intro val_inj) simp_all
  then show ?thesis using r by simp
qed

text \<open>
  C6.  If \<open>mpi_add\<close> of single-width \<open>a\<close> and \<open>b\<close> returns carry 0, then
  subtracting \<open>b\<close> from the sum with \<open>mpi_sub\<close> gives back \<open>a\<close>.
\<close>

theorem add_sub_inverse:
  assumes "0 < N" "N \<le> 255" "length a = N" "length b = N"
    and "mpi_add N a 0 b 0 = Some (s, 0)"
  shows "mpi_sub N s 0 b 0 = Some a"
  using assms by (rule sub_after_add)

theorem add_sub_inverse_witness:
  "0 < (2::nat) \<and> (2::nat) \<le> 255 \<and> length [0xFFFF, 7 :: 16 word] = 2 \<and> length [3, 5 :: 16 word] = 2
   \<and> mpi_add 2 [0xFFFF, 7] 0 [3, 5] 0 = Some ([2, 13], 0)
   \<and> mpi_sub 2 [2, 13] 0 [3, 5] 0 = Some [0xFFFF, 7]"
proof -
  have h: "mpi_add 2 [0xFFFF, 7] 0 [3, 5] 0 = Some ([2, 13], 0)"
    by (simp add: mpi_add_def mpi_add_loop.simps inb_def)
  have "mpi_sub 2 [2, 13] 0 [3, 5] 0 = Some [0xFFFF, 7]"
    using add_sub_inverse [of 2 "[0xFFFF, 7]" "[3, 5]" "[2, 13]"] h by simp
  then show ?thesis using h by simp
qed

text \<open>
  C10.  With no precondition on the operands, \<open>mpi_sub\<close> stores
  \<open>(dest - src) mod 2^(16N)\<close> into \<open>dest\<close>; hence subtracting \<open>src\<close> after
  \<open>mpi_add\<close> restores \<open>dest\<close> whatever carry the addition returned.
\<close>

theorem mpi_sub_wraps:
  assumes "0 < N" "N \<le> 255" "length dest = N" "length src = N"
  shows "\<exists>d'. mpi_sub N dest 0 src 0 = Some d' \<and> length d' = N
           \<and> int (val d') = (int (val dest) - int (val src)) mod 2 ^ (16 * N)
           \<and> (\<exists>s c. mpi_add N dest 0 src 0 = Some (s, c) \<and> mpi_sub N s 0 src 0 = Some dest)"
proof -
  from mpi_sub_correct [of N 0 dest 0 src] assms
  obtain d' where r: "mpi_sub N dest 0 src 0 = Some d'" and len': "length d' = N"
    and v': "int (val d') = (int (val dest) - int (val src)) mod 65536 ^ N"
    by (auto simp: window_whole)
  from mpi_add_correct [of N 0 dest 0 src] assms
  obtain s c where a: "mpi_add N dest 0 src 0 = Some (s, c)" by auto
  have "mpi_sub N s 0 src 0 = Some dest"
    using assms a by (rule sub_after_add)
  moreover have "(65536 :: int) ^ N = 2 ^ (16 * N)"
    by (simp add: power_mult)
  ultimately show ?thesis
    using r len' v' a by simp
qed

theorem mpi_sub_wraps_witness:
  "0 < (2::nat) \<and> (2::nat) \<le> 255 \<and> length [1, 0 :: 16 word] = 2 \<and> length [2, 0 :: 16 word] = 2
   \<and> mpi_sub 2 [1, 0] 0 [2, 0] 0 = Some [0xFFFF, 0xFFFF]
   \<and> mpi_add 2 [0xFFFF, 0xFFFF] 0 [2, 0] 0 = Some ([1, 0], 1)
   \<and> (\<exists>d'. mpi_sub 2 [0xFFFF, 0xFFFF] 0 [2, 0] 0 = Some d' \<and> length d' = 2
           \<and> int (val d') = (int (val [0xFFFF, 0xFFFF]) - int (val [2, 0])) mod 2 ^ (16 * 2)
           \<and> (\<exists>s c. mpi_add 2 [0xFFFF, 0xFFFF] 0 [2, 0] 0 = Some (s, c)
                  \<and> mpi_sub 2 s 0 [2, 0] 0 = Some [0xFFFF, 0xFFFF]))"
proof -
  have "mpi_sub 2 [1, 0] 0 [2, 0] 0 = Some [0xFFFF, 0xFFFF]"
    by (simp add: mpi_sub_def mpi_sub_loop.simps inb_def)
  moreover have "mpi_add 2 [0xFFFF, 0xFFFF] 0 [2, 0] 0 = Some ([1, 0], 1)"
    by (simp add: mpi_add_def mpi_add_loop.simps inb_def)
  ultimately show ?thesis
    using mpi_sub_wraps [of 2 "[0xFFFF, 0xFFFF]" "[2, 0]"] by simp
qed

text \<open>
  C7.  For single-width \<open>a\<close> and \<open>b\<close>, \<open>mpi_cmp\<close> returns the sign of \<open>a - b\<close>
  as unsigned integers; \<open>mpi_cmp a b\<close> and \<open>mpi_cmp b a\<close> are each other's
  negation, and \<open>mpi_cmp a a\<close> is 0.
\<close>

theorem mpi_cmp_sign:
  assumes "0 < N" "N \<le> 255" "length a = N" "length b = N"
  shows "\<exists>r. mpi_cmp N a 0 b 0 = Some r
           \<and> sint r = sgn (int (val a) - int (val b))
           \<and> mpi_cmp N b 0 a 0 = Some (- r)
           \<and> mpi_cmp N a 0 a 0 = Some 0"
  using mpi_cmp_correct [of N 0 a 0 b] mpi_cmp_correct [of N 0 b 0 a]
    mpi_cmp_correct [of N 0 a 0 a] assms
  by (auto simp: window_whole)

theorem mpi_cmp_sign_witness:
  "0 < (2::nat) \<and> (2::nat) \<le> 255 \<and> length [9, 1 :: 16 word] = 2 \<and> length [3, 2 :: 16 word] = 2
   \<and> mpi_cmp 2 [9, 1] 0 [3, 2] 0 = Some (- 1) \<and> mpi_cmp 2 [3, 2] 0 [9, 1] 0 = Some 1
   \<and> mpi_cmp 2 [9, 1] 0 [9, 1] 0 = Some 0
   \<and> (\<exists>r. mpi_cmp 2 [9, 1] 0 [3, 2] 0 = Some r
           \<and> sint r = sgn (int (val [9, 1]) - int (val [3, 2])))"
proof -
  have "mpi_cmp 2 [9, 1] 0 [3, 2] 0 = Some (- 1)" "mpi_cmp 2 [3, 2] 0 [9, 1] 0 = Some 1"
    "mpi_cmp 2 [9, 1] 0 [9, 1] 0 = Some 0"
    by (simp_all add: mpi_cmp_def mpi_cmp_loop.simps inb_def word_sless_alt)
  then show ?thesis
    using mpi_cmp_sign [of 2 "[9, 1]" "[3, 2]"] by simp
qed

section \<open>Correctness of multiply-subtract-digit\<close>

declare mpi_mulsubuuk_loop.simps [simp del]

lemma unat_and_low16_32: "unat ((w :: 32 word) AND 0xFFFF) = unat w mod 65536"
  unfolding mask16_32
  by (simp add: take_bit_eq_mod unsigned_take_bit_eq unat_mod flip: take_bit_eq_mask)

lemma unat16_mult_bound: "unat (x :: 16 word) * unat (y :: 16 word) \<le> 65535 * 65535"
proof -
  have "unat x \<le> 65535" "unat y \<le> 65535"
    using unat16_lt [of x] unat16_lt [of y] by simp_all
  then show ?thesis by (rule mult_le_mono)
qed

lemma unat_mult_16_32:
  "unat (ucast (x :: 16 word) * ucast (y :: 16 word) :: 32 word) = unat x * unat y"
proof -
  have "unat x * unat y < 2 ^ 32"
    using unat16_mult_bound [of x y] by simp
  then show ?thesis
    by (simp add: unat_word_ariths unat_ucast_16_32)
qed

lemma mulsub_step:
  fixes x ci b :: "16 word" and nb mc :: "32 word"
  assumes "unat nb \<le> 1" "unat mc < 65536"
  defines "mc1 \<equiv> mc + ucast x * ucast b"
  defines "nb1 \<equiv> nb + (65535 + ucast ci - (mc1 AND 0xFFFF))"
  shows "unat (ucast (nb1 AND 0xFFFF) :: 16 word) + unat x * unat b + unat mc
           + 65536 * unat (drop_bit 16 nb1 AND 1) + 1
         = unat ci + unat nb + 65536 + 65536 * unat (drop_bit 16 mc1)"
    and "unat (drop_bit 16 nb1 AND 1) \<le> 1"
    and "unat (drop_bit 16 mc1) < 65536"
proof -
  have p: "unat x * unat b \<le> 65535 * 65535" by (rule unat16_mult_bound)
  have m1: "unat mc1 = unat mc + unat x * unat b"
    unfolding mc1_def using p assms(2) by (simp add: unat_word_ariths(1) unat_mult_16_32)
  define low where "low = unat mc1 mod 65536"
  have low: "unat (mc1 AND 0xFFFF) = low" "low < 65536"
    by (simp_all add: low_def unat_and_low16_32)
  have a: "unat (65535 + ucast ci :: 32 word) = 65535 + unat ci"
    using unat16_lt [of ci] by (simp add: unat_word_ariths unat_ucast_16_32)
  have "unat (mc1 AND 0xFFFF) \<le> unat (65535 + ucast ci :: 32 word)"
    using low by (simp add: a)
  then have s: "unat (65535 + ucast ci - (mc1 AND 0xFFFF)) = 65535 + unat ci - low"
    by (simp add: unat_sub word_le_nat_alt a low)
  have n1: "unat nb1 = unat nb + 65535 + unat ci - low"
    unfolding nb1_def using assms(1) unat16_lt [of ci] low(2)
    by (simp add: unat_word_ariths(1) s)
  have lt: "unat nb1 < 2 * 65536"
    using n1 assms(1) unat16_lt [of ci] by simp
  then have d: "unat (drop_bit 16 nb1 AND 1) = unat nb1 div 65536"
    by (simp add: unat_and1_32 unat_shift16_32)
  have e1: "unat nb1 mod 65536 + 65536 * (unat nb1 div 65536) = unat nb1" by simp
  have e2: "low + 65536 * (unat mc1 div 65536) = unat mc1" by (simp add: low_def)
  show "unat (ucast (nb1 AND 0xFFFF) :: 16 word) + unat x * unat b + unat mc
           + 65536 * unat (drop_bit 16 nb1 AND 1) + 1
         = unat ci + unat nb + 65536 + 65536 * unat (drop_bit 16 mc1)"
    using e1 e2 low(2) by (simp add: unat_low16_32 unat_shift16_32 d n1 m1)
  show "unat (drop_bit 16 nb1 AND 1) \<le> 1"
    using lt by (simp add: d)
  have "unat mc1 < 65536 * 65536"
    using m1 p assms(2) by simp
  then show "unat (drop_bit 16 mc1) < 65536"
    by (simp add: unat_shift16_32 less_mult_imp_div_less)
qed


lemma mpi_mulsubuuk_loop_correct:
  assumes "n \<le> 254" "cp + Suc n \<le> length c" "ap + Suc n \<le> length a"
    "unat nb \<le> 1" "unat mc < 65536"
  shows "\<exists>c' nb' mc'.
           mpi_mulsubuuk_loop c (int cp) a (int ap) b nb mc (of_nat (Suc n))
             = Some (c', int (cp + Suc n), nb', mc')
           \<and> length c' = length c \<and> take cp c' = take cp c
           \<and> drop (cp + Suc n) c' = drop (cp + Suc n) c
           \<and> unat nb' \<le> 1 \<and> unat mc' < 65536
           \<and> val (window c' cp (Suc n)) + val (window a ap (Suc n)) * unat b + unat mc
                 + 65536 ^ Suc n * unat nb' + 1
               = val (window c cp (Suc n)) + unat nb + 65536 ^ Suc n
                 + 65536 ^ Suc n * unat mc'"
  using assms
proof (induction n arbitrary: c cp ap nb mc)
  case 0
  define mc1 where "mc1 = mc + ucast (a ! ap) * ucast b"
  define nb1 where "nb1 = nb + (65535 + ucast (c ! cp) - (mc1 AND 0xFFFF))"
  note st = mulsub_step(1,2) [where x = "a ! ap" and b = b and ci = "c ! cp",
      OF \<open>unat nb \<le> 1\<close> \<open>unat mc < 65536\<close>,
      folded mc1_def, folded nb1_def]
    mulsub_step(3) [where x = "a ! ap" and b = b,
      OF \<open>unat nb \<le> 1\<close> \<open>unat mc < 65536\<close>, folded mc1_def]
  have "mpi_mulsubuuk_loop c (int cp) a (int ap) b nb mc (of_nat (Suc 0))
          = Some (c[cp := ucast (nb1 AND 0xFFFF)], int (cp + Suc 0),
                  drop_bit 16 nb1 AND 1, drop_bit 16 mc1)"
    using 0 by (subst mpi_mulsubuuk_loop.simps) (simp add: inb_def Let_def mc1_def nb1_def)
  then show ?case
    using 0 st by (simp add: window_update_here window_Suc window_0)
next
  case (Suc n)
  define mc1 where "mc1 = mc + ucast (a ! ap) * ucast b"
  define nb1 where "nb1 = nb + (65535 + ucast (c ! cp) - (mc1 AND 0xFFFF))"
  define w :: "16 word" where "w = ucast (nb1 AND 0xFFFF)"
  define nb2 where "nb2 = drop_bit 16 nb1 AND 1"
  define mc2 where "mc2 = drop_bit 16 mc1"
  define c1 where "c1 = c[cp := w]"
  note st = mulsub_step(1,2) [where x = "a ! ap" and b = b and ci = "c ! cp",
      OF \<open>unat nb \<le> 1\<close> \<open>unat mc < 65536\<close>,
      folded mc1_def, folded nb1_def, folded w_def nb2_def mc2_def]
    mulsub_step(3) [where x = "a ! ap" and b = b,
      OF \<open>unat nb \<le> 1\<close> \<open>unat mc < 65536\<close>, folded mc1_def, folded mc2_def]
  have cnt: "(of_nat (Suc (Suc n)) :: 8 word) - 1 = of_nat (Suc n)" by simp
  have nz: "(of_nat (Suc n) :: 8 word) \<noteq> 0"
    using Suc.prems(1) word8_of_nat_eq0 [of "Suc n"] by simp
  have unf: "mpi_mulsubuuk_loop c (int cp) a (int ap) b nb mc (of_nat (Suc (Suc n)))
          = mpi_mulsubuuk_loop c1 (int (Suc cp)) a (int (Suc ap)) b nb2 mc2 (of_nat (Suc n))"
    using Suc.prems nz
    by (subst mpi_mulsubuuk_loop.simps)
       (simp add: inb_def Let_def mc1_def nb1_def w_def nb2_def mc2_def c1_def cnt int_Suc_eq
          del: of_nat_Suc)
  from Suc.IH [of "Suc cp" c1 "Suc ap" nb2 mc2] Suc.prems st(2,3)
  obtain c' nb' mc' where
    r: "mpi_mulsubuuk_loop c1 (int (Suc cp)) a (int (Suc ap)) b nb2 mc2 (of_nat (Suc n))
          = Some (c', int (Suc cp + Suc n), nb', mc')"
    and len: "length c' = length c1"
    and tk: "take (Suc cp) c' = take (Suc cp) c1"
    and dr: "drop (Suc cp + Suc n) c' = drop (Suc cp + Suc n) c1"
    and b': "unat nb' \<le> 1" "unat mc' < 65536"
    and v: "val (window c' (Suc cp) (Suc n)) + val (window a (Suc ap) (Suc n)) * unat b + unat mc2
                 + 65536 ^ Suc n * unat nb' + 1
               = val (window c1 (Suc cp) (Suc n)) + unat nb2 + 65536 ^ Suc n
                 + 65536 ^ Suc n * unat mc'"
    by (auto simp: c1_def)
  have dlt: "cp < length c" "cp < length c'" "cp < length c1" "ap < length a"
    using Suc.prems len by (simp_all add: c1_def)
  have nth: "c' ! cp = w" and tk': "take cp c' = take cp c"
    using window_cong_take [OF tk dlt(2) dlt(3)] dlt by (simp_all add: c1_def)
  have w1: "window c1 (Suc cp) (Suc n) = window c (Suc cp) (Suc n)"
    by (simp add: c1_def window_update_below)
  let ?C' = "val (window c' (Suc cp) (Suc n))" and ?A = "val (window a (Suc ap) (Suc n))"
  let ?C = "val (window c (Suc cp) (Suc n))" and ?P = "(65536 :: nat) ^ Suc n"
  have "val (window c' cp (Suc (Suc n))) + val (window a ap (Suc (Suc n))) * unat b + unat mc
           + 65536 ^ Suc (Suc n) * unat nb' + 1 + (65536 * unat nb2 + 65536 * unat mc2 + 65536)
      = (unat w + unat (a ! ap) * unat b + unat mc + 65536 * unat nb2 + 1)
        + 65536 * (?C' + ?A * unat b + unat mc2 + ?P * unat nb' + 1)"
    using dlt nth by (simp add: window_Suc [of cp c'] window_Suc [of ap a] algebra_simps)
  also have "\<dots> = (unat (c ! cp) + unat nb + 65536 + 65536 * unat mc2)
        + 65536 * (?C + unat nb2 + ?P + ?P * unat mc')"
    by (simp only: v w1 st(1))
  also have "\<dots> = val (window c cp (Suc (Suc n))) + unat nb + 65536 ^ Suc (Suc n)
                 + 65536 ^ Suc (Suc n) * unat mc' + (65536 * unat nb2 + 65536 * unat mc2 + 65536)"
    using dlt by (simp add: window_Suc [of cp c] algebra_simps)
  finally have "val (window c' cp (Suc (Suc n))) + val (window a ap (Suc (Suc n))) * unat b + unat mc
           + 65536 ^ Suc (Suc n) * unat nb' + 1
      = val (window c cp (Suc (Suc n))) + unat nb + 65536 ^ Suc (Suc n)
                 + 65536 ^ Suc (Suc n) * unat mc'"
    by simp
  moreover have "drop (cp + Suc (Suc n)) c' = drop (cp + Suc (Suc n)) c"
    using dr by (simp add: c1_def)
  ultimately show ?case
    using unf r len tk' b' by (simp add: c1_def)
qed

lemma unat_ucast_flag_32_8: "unat (c :: 32 word) \<le> 1 \<Longrightarrow> unat (ucast c :: 8 word) = unat c"
  using word32_le1_cases [of c] by auto

lemma window_update_above: "p + n \<le> i \<Longrightarrow> window (m[i := v]) p n = window m p n"
  by (simp add: window_def drop_update_swap)

lemma mulsub_last_step:
  fixes ci :: "16 word" and nb mc :: "32 word"
  assumes "unat nb \<le> 1" "unat mc < 65536"
  defines "nb1 \<equiv> nb + (65535 + ucast ci - (mc AND 0xFFFF))"
  shows "unat (ucast (nb1 AND 0xFFFF) :: 16 word) + unat mc
           + 65536 * unat (ucast (drop_bit 16 nb1 AND 1) :: 8 word) + 1
         = unat ci + unat nb + 65536"
    and "unat (ucast (drop_bit 16 nb1 AND 1) :: 8 word) \<le> 1"
proof -
  note st = mulsub_step(1,2) [where x = 0 and b = 0 and ci = ci, OF assms(1,2), simplified,
      folded nb1_def]
  have z: "unat (drop_bit 16 mc) = 0"
    using assms(2) by (simp add: unat_shift16_32)
  have f: "unat (ucast (drop_bit 16 nb1 AND 1) :: 8 word) = unat (drop_bit 16 nb1 AND 1)"
    using st(2) by (intro unat_ucast_flag_32_8) simp
  show "unat (ucast (nb1 AND 0xFFFF) :: 16 word) + unat mc
           + 65536 * unat (ucast (drop_bit 16 nb1 AND 1) :: 8 word) + 1
         = unat ci + unat nb + 65536"
    using st(1) z by (simp add: f)
  show "unat (ucast (drop_bit 16 nb1 AND 1) :: 8 word) \<le> 1"
    using st(2) by (simp add: f)
qed

lemma mpi_mulsubuuk_correct:
  assumes "0 < N" "N \<le> 255" "cp + N + 1 \<le> length c" "ap + N \<le> length a"
  shows "\<exists>c' r. mpi_mulsubuuk N c (int cp) a (int ap) b = Some (c', r)
           \<and> length c' = length c \<and> take cp c' = take cp c
           \<and> drop (cp + N + 1) c' = drop (cp + N + 1) c \<and> unat r \<le> 1
           \<and> val (window c' cp (N + 1)) + val (window a ap N) * unat b + 65536 ^ (N + 1) * unat r
               = val (window c cp (N + 1)) + 65536 ^ (N + 1)"
proof -
  obtain n where N: "N = Suc n" using assms(1) by (cases N) simp_all
  have i: "unat (1 :: 32 word) \<le> 1" "unat (0 :: 32 word) < 65536" by simp_all
  from mpi_mulsubuuk_loop_correct [OF _ _ _ i, of n cp c ap a b] assms
  obtain c1 nb mc where
    l: "mpi_mulsubuuk_loop c (int cp) a (int ap) b 1 0 (of_nat N) = Some (c1, int (cp + N), nb, mc)"
    and len: "length c1 = length c" and tk: "take cp c1 = take cp c"
    and dr: "drop (cp + N) c1 = drop (cp + N) c"
    and bd: "unat nb \<le> 1" "unat mc < 65536"
    and v: "val (window c1 cp N) + val (window a ap N) * unat b + 65536 ^ N * unat nb
               = val (window c cp N) + 65536 ^ N + 65536 ^ N * unat mc"
    unfolding N by auto
  define nb1 where "nb1 = nb + (65535 + ucast (c1 ! (cp + N)) - (mc AND 0xFFFF))"
  define w :: "16 word" where "w = ucast (nb1 AND 0xFFFF)"
  define r :: "8 word" where "r = ucast (drop_bit 16 nb1 AND 1)"
  define c2 where "c2 = c1[cp + N := w]"
  note st = mulsub_last_step [OF bd, of "c1 ! (cp + N)", folded nb1_def, folded w_def r_def]
  have res: "mpi_mulsubuuk N c (int cp) a (int ap) b = Some (c2, r)"
    using assms len
    by (simp add: mpi_mulsubuuk_def l inb_def Let_def nb1_def w_def r_def c2_def nat_add_distrib)
  have top: "c1 ! (cp + N) = c ! (cp + N)"
    using dr assms len by (metis nth_drop add.right_neutral less_add_one add_less_le_mono
        order_less_le_trans linorder_not_le not_add_less1)
  have wc: "window c cp (Suc N) = window c cp N @ [c ! (cp + N)]"
    using assms by (simp add: window_snoc)
  have wc2: "window c2 cp (Suc N) = window c1 cp N @ [w]"
    using assms len by (simp add: window_snoc c2_def window_update_above)
  have lw: "length (window c cp N) = N" "length (window c1 cp N) = N"
    using assms len by (simp_all add: length_window)
  have "val (window c2 cp (N + 1)) + val (window a ap N) * unat b + 65536 ^ (N + 1) * unat r
          + (65536 ^ N * unat nb + 65536 ^ N * unat mc + 65536 ^ N)
      = (val (window c1 cp N) + val (window a ap N) * unat b + 65536 ^ N * unat nb)
          + 65536 ^ N * (unat w + unat mc + 65536 * unat r + 1)"
    by (simp add: wc2 val_append lw algebra_simps)
  also have "\<dots> = (val (window c cp N) + 65536 ^ N + 65536 ^ N * unat mc)
          + 65536 ^ N * (unat (c ! (cp + N)) + unat nb + 65536)"
    by (simp only: v st(1) top)
  also have "\<dots> = val (window c cp (N + 1)) + 65536 ^ (N + 1)
          + (65536 ^ N * unat nb + 65536 ^ N * unat mc + 65536 ^ N)"
    by (simp add: wc val_append lw algebra_simps)
  finally have "val (window c2 cp (N + 1)) + val (window a ap N) * unat b + 65536 ^ (N + 1) * unat r
      = val (window c cp (N + 1)) + 65536 ^ (N + 1)"
    by simp
  moreover have "take cp c2 = take cp c"
    using tk by (simp add: c2_def)
  moreover have "drop (cp + N + 1) c2 = drop (cp + N + 1) c"
  proof -
    have "drop (cp + N + 1) c2 = drop 1 (drop (cp + N) c1)"
      by (simp add: c2_def)
    also have "\<dots> = drop (cp + N + 1) c"
      by (simp only: dr) simp
    finally show ?thesis .
  qed
  ultimately show ?thesis
    using res len st(2) by (simp add: c2_def)
qed

lemma word8_le1_cases: "unat (c :: 8 word) \<le> 1 \<Longrightarrow> c = 0 \<or> c = 1"
proof -
  assume "unat c \<le> 1"
  then have "unat c = unat (0 :: 8 word) \<or> unat c = unat (1 :: 8 word)" by auto
  then show ?thesis by (simp only: word_unat_eq_iff)
qed

lemma borrow_flag_cases:
  fixes C' P C X r :: nat
  assumes "C' + X + P * r = C + P" "C' < P" "r \<le> 1" "C < P"
  shows "r = 1 \<longleftrightarrow> X \<le> C" and "int C' = (int C - int X) mod int P"
proof -
  have r: "r = 0 \<or> r = 1" using assms(3) by auto
  show "r = 1 \<longleftrightarrow> X \<le> C"
    using r assms(1,2,4) by auto
  have "int (C' + X + P * r) = int (C + P)" using assms(1) by (rule arg_cong)
  then have "int C - int X = int C' + (int r - 1) * int P"
    by (simp add: algebra_simps)
  then have "(int C - int X) mod int P = (int C' + (int r - 1) * int P) mod int P"
    by simp
  also have "\<dots> = int C' mod int P" by algebra
  also have "\<dots> = int C'" using assms(2) by simp
  finally show "int C' = (int C - int X) mod int P" by simp
qed

text \<open>
  C4, as stated, fails: the flag returned by \<open>mpi_mulsubuuk\<close> is not set exactly
  when the old accumulator is less than \<open>a * b\<close>.  For \<open>c = 0\<close>, \<open>a = 0\<close>, \<open>b = 0\<close>
  nothing underflows, yet the function returns 1.
\<close>

theorem mulsub_flag_counterexample:
  "mpi_mulsubuuk 2 [0, 0, 0] 0 [0, 0] 0 0 = Some ([0, 0, 0], 1)
   \<and> \<not> val [0, 0, 0] < val [0, 0] * unat (0 :: 16 word)"
  by (simp add: mpi_mulsubuuk_def mpi_mulsubuuk_loop.simps inb_def)

text \<open>
  C4, amended.  For an \<open>(N+1)\<close>-word accumulator \<open>c\<close>, single-width \<open>a\<close> and a
  word \<open>b\<close>, \<open>mpi_mulsubuuk\<close> updates \<open>c\<close> to \<open>(c - a * b) mod 2^(16(N+1))\<close> and
  returns the negated borrow: 1 exactly when the old \<open>c\<close> is at least \<open>a * b\<close> (no
  underflow), 0 exactly when the old \<open>c\<close> is less than \<open>a * b\<close>.
\<close>

theorem mpi_mulsubuuk_nborrow:
  assumes "0 < N" "N \<le> 255" "length c = N + 1" "length a = N"
  shows "\<exists>c' r. mpi_mulsubuuk N c 0 a 0 b = Some (c', r) \<and> length c' = N + 1
           \<and> int (val c') = (int (val c) - int (val a) * int (unat b)) mod 2 ^ (16 * (N + 1))
           \<and> (r = 1 \<longleftrightarrow> val a * unat b \<le> val c)
           \<and> (r = 0 \<longleftrightarrow> val c < val a * unat b)"
proof -
  from mpi_mulsubuuk_correct [of N 0 c 0 a b] assms
  obtain c' r where res: "mpi_mulsubuuk N c 0 a 0 b = Some (c', r)"
    and len: "length c' = N + 1" and r: "unat r \<le> 1"
    and v: "val c' + val a * unat b + 65536 ^ (N + 1) * unat r = val c + 65536 ^ (N + 1)"
    by (auto simp: window_whole)
  have bc: "val c < 65536 ^ (N + 1)" "val c' < 65536 ^ (N + 1)"
    using val_bound [of c] val_bound [of c'] assms len by simp_all
  note f = borrow_flag_cases [OF v bc(2) r bc(1)]
  have r1: "r = 1 \<longleftrightarrow> unat r = 1"
    using word8_le1_cases [OF r] by auto
  have r0: "r = 0 \<longleftrightarrow> unat r \<noteq> 1"
    using word8_le1_cases [OF r] by auto
  have m: "int (val c') = (int (val c) - int (val a) * int (unat b)) mod 2 ^ (16 * (N + 1))"
  proof -
    have p: "int (65536 ^ (N + 1)) = 2 ^ (16 * (N + 1))"
      by (simp add: power_add power_mult)
    show ?thesis using f(2) by (simp only: p of_nat_mult)
  qed
  show ?thesis
    using res len m f(1) r1 r0 by auto
qed

theorem mpi_mulsubuuk_nborrow_witness:
  "0 < (2::nat) \<and> (2::nat) \<le> 255 \<and> length [5, 0, 0 :: 16 word] = 2 + 1 \<and> length [3, 0 :: 16 word] = 2
   \<and> mpi_mulsubuuk 2 [5, 0, 0] 0 [3, 0] 0 2 = Some ([0xFFFF, 0xFFFF, 0xFFFF], 0)
   \<and> val [5, 0, 0] < val [3, 0] * unat (2 :: 16 word)
   \<and> mpi_mulsubuuk 2 [5, 0, 0] 0 [3, 0] 0 1 = Some ([2, 0, 0], 1)
   \<and> val [3, 0] * unat (1 :: 16 word) \<le> val [5, 0, 0]"
proof -
  have "mpi_mulsubuuk 2 [5, 0, 0] 0 [3, 0] 0 2 = Some ([0xFFFF, 0xFFFF, 0xFFFF], 0)"
    by (simp add: mpi_mulsubuuk_def mpi_mulsubuuk_loop.simps inb_def)
  moreover have "mpi_mulsubuuk 2 [5, 0, 0] 0 [3, 0] 0 1 = Some ([2, 0, 0], 1)"
    by (simp add: mpi_mulsubuuk_def mpi_mulsubuuk_loop.simps inb_def)
  ultimately show ?thesis
    using mpi_mulsubuuk_nborrow [of 2 "[5, 0, 0]" "[3, 0]" 2] by simp
qed

section \<open>Correctness of multiplication\<close>

declare muluu_inner.simps [simp del] muluu_loop1.simps [simp del] muluu_loop2.simps [simp del]

lemma dot_Suc_shift:
  "dot a i b j (Suc n) = unat (a ! i) * unat (b ! j) + dot a (Suc i) b (j - 1) n"
  by (simp add: dot_def sum.lessThan_Suc_shift del: sum.lessThan_Suc)

lemma dot_bound: "dot a i b j n \<le> n * (65535 * 65535)"
proof -
  have "dot a i b j n \<le> (\<Sum>t<n. 65535 * 65535)"
    unfolding dot_def by (intro sum_mono unat16_mult_bound)
  then show ?thesis by simp
qed

lemma mask16_64: "(0xFFFF :: 64 word) = mask 16"
  by (simp add: mask_eq_exp_minus_1)

lemma unat_low16_64: "unat (ucast ((w :: 64 word) AND 0xFFFF) :: 16 word) = unat w mod 65536"
  unfolding mask16_64
  by (simp add: unsigned_ucast_eq take_bit_eq_mod unsigned_and_eq unsigned_take_bit_eq unat_mod
      flip: take_bit_eq_mask)

lemma unat_shift16_64: "unat (drop_bit 16 (w :: 64 word)) = unat w div 65536"
  by (simp add: unat_drop_bit_eq drop_bit_eq_div unat_div)

lemma unat_prod_64:
  "unat (ucast (ucast (x :: 16 word) * ucast (y :: 16 word) :: 32 word) :: 64 word) = unat x * unat y"
proof -
  have "unat x * unat y < 2 ^ 32"
    using unat16_mult_bound [of x y] by simp
  then show ?thesis
    by (simp add: unsigned_ucast_eq take_bit_eq_mod unat_mult_16_32)
qed

lemma muluu_inner_correct:
  assumes "n \<le> 254" "i + n < length a" "n \<le> j" "j < length b"
    "unat mc + Suc n * (65535 * 65535) < 2 ^ 64"
  shows "\<exists>mc'. muluu_inner a (int i) b (int j) mc (of_nat (Suc n)) = Some mc'
           \<and> unat mc' = unat mc + dot a i b j (Suc n)"
  using assms
proof (induction n arbitrary: i j mc)
  case 0
  have "unat (mc + ucast (ucast (a ! i) * ucast (b ! j) :: 32 word))
      = unat mc + unat (a ! i) * unat (b ! j)"
    using 0 unat16_mult_bound [of "a ! i" "b ! j"]
    by (simp add: unat_word_ariths(1) unat_prod_64)
  then show ?case
    using 0 by (subst muluu_inner.simps) (simp add: inb_def Let_def dot_def)
next
  case (Suc n)
  define mc1 where "mc1 = mc + ucast (ucast (a ! i) * ucast (b ! j) :: 32 word)"
  have m1: "unat mc1 = unat mc + unat (a ! i) * unat (b ! j)"
    unfolding mc1_def using Suc.prems unat16_mult_bound [of "a ! i" "b ! j"]
    by (simp add: unat_word_ariths(1) unat_prod_64)
  have cnt: "(of_nat (Suc (Suc n)) :: 8 word) - 1 = of_nat (Suc n)" by simp
  have nz: "(of_nat (Suc n) :: 8 word) \<noteq> 0"
    using Suc.prems(1) word8_of_nat_eq0 [of "Suc n"] by simp
  have jj: "int j - 1 = int (j - 1)" using Suc.prems by simp
  have unf: "muluu_inner a (int i) b (int j) mc (of_nat (Suc (Suc n)))
          = muluu_inner a (int (Suc i)) b (int (j - 1)) mc1 (of_nat (Suc n))"
    using Suc.prems nz
    by (subst muluu_inner.simps)
       (simp add: inb_def Let_def mc1_def cnt int_Suc_eq jj del: of_nat_Suc)
  have p: "n \<le> 254" "Suc i + n < length a" "n \<le> j - 1" "j - 1 < length b"
    using Suc.prems by simp_all
  have "unat mc1 + Suc n * (65535 * 65535) < 2 ^ 64"
    using Suc.prems(5) m1 unat16_mult_bound [of "a ! i" "b ! j"] by simp
  from Suc.IH [OF p this]
  obtain mc' where "muluu_inner a (int (Suc i)) b (int (j - 1)) mc1 (of_nat (Suc n)) = Some mc'"
    "unat mc' = unat mc1 + dot a (Suc i) b (j - 1) (Suc n)"
    by blast
  then show ?case
    using unf m1 by (simp add: dot_Suc_shift [of a i b j "Suc n"])
qed

lemma emit_word:
  fixes mc1 :: "64 word"
  assumes "unat mc1 < 2 ^ 41"
  shows "unat (ucast (mc1 AND 0xFFFF) :: 16 word) + 65536 * unat (drop_bit 16 mc1) = unat mc1"
    and "unat (drop_bit 16 mc1) < 2 ^ 40"
proof -
  show "unat (ucast (mc1 AND 0xFFFF) :: 16 word) + 65536 * unat (drop_bit 16 mc1) = unat mc1"
    by (simp add: unat_low16_64 unat_shift16_64)
  have "unat mc1 div 65536 \<le> unat mc1" by (rule div_le_dividend)
  then show "unat (drop_bit 16 mc1) < 2 ^ 40"
    using assms by (simp add: unat_shift16_64)
qed

lemma column_bound:
  assumes "unat (mc :: 64 word) < 2 ^ 40" "n \<le> 255"
  shows "unat mc + dot a i b j n < 2 ^ 41"
proof -
  have "dot a i b j n \<le> n * (65535 * 65535)" by (rule dot_bound)
  also have "\<dots> \<le> 255 * (65535 * 65535)" using assms(2) by (intro mult_le_mono1)
  finally show ?thesis using assms(1) by simp
qed

lemma muluu_loop1_step:
  assumes "muluu_inner a ap b (int j) mc niter2 = Some mc1" "k < length c"
  shows "muluu_loop1 c (int k) a ap b (int j) mc count niter2 =
           (if count - 1 \<noteq> 0
            then muluu_loop1 (c[k := ucast (mc1 AND 0xFFFF)]) (int (Suc k)) a ap b (int (Suc j))
                   (drop_bit 16 mc1) (count - 1) (niter2 + 1)
            else Some (c[k := ucast (mc1 AND 0xFFFF)], int (Suc k), int (Suc j),
                       drop_bit 16 mc1, niter2 + 1))"
  using assms
  by (subst muluu_loop1.simps) (simp add: Let_def inb_def int_Suc_eq del: of_nat_Suc)

lemma sum_shift_weighted:
  fixes g :: "nat \<Rightarrow> nat"
  shows "(\<Sum>t<Suc n. g (k + t) * 65536 ^ t) = g k + 65536 * (\<Sum>t<n. g (Suc k + t) * 65536 ^ t)"
  by (simp add: sum.lessThan_Suc_shift sum_distrib_left algebra_simps del: sum.lessThan_Suc)

lemma muluu_loop1_correct:
  assumes "k + Suc r = N" "N \<le> 255" "length a = N" "length b = N" "N \<le> length c"
    "unat mc < 2 ^ 40"
  shows "\<exists>c' mc'. muluu_loop1 c (int k) a 0 b (int k) mc (of_nat (Suc r)) (of_nat (Suc k))
             = Some (c', int N, int N, mc', of_nat (Suc N))
           \<and> length c' = length c \<and> take k c' = take k c \<and> drop N c' = drop N c
           \<and> unat mc' < 2 ^ 40
           \<and> val (window c' k (Suc r)) + 65536 ^ Suc r * unat mc'
               = unat mc + (\<Sum>t<Suc r. dot a 0 b (k + t) (Suc (k + t)) * 65536 ^ t)"
  using assms
proof (induction r arbitrary: k c mc)
  case 0
  have "unat mc + Suc k * (65535 * 65535) < 2 ^ 64"
    using 0 by simp
  from muluu_inner_correct [of k 0 a k b mc, OF _ _ _ _ this] 0
  obtain mc1 where i: "muluu_inner a 0 b (int k) mc (of_nat (Suc k)) = Some mc1"
    and m1: "unat mc1 = unat mc + dot a 0 b k (Suc k)"
    by auto
  have "unat mc1 < 2 ^ 41"
    unfolding m1 using 0 by (intro column_bound) simp_all
  note e = emit_word [OF this]
  define w :: "16 word" where "w = ucast (mc1 AND 0xFFFF)"
  define mc2 where "mc2 = drop_bit 16 mc1"
  define c1 where "c1 = c[k := w]"
  have N: "N = Suc k" using 0 by simp
  have nit: "(of_nat (Suc k) :: 8 word) + 1 = of_nat (Suc (Suc k))" by simp
  have res: "muluu_loop1 c (int k) a 0 b (int k) mc (of_nat (Suc 0)) (of_nat (Suc k))
      = Some (c1, int N, int N, mc2, of_nat (Suc N))"
  proof -
    have kc: "k < length c" using 0 by simp
    have one: "(of_nat (Suc 0) :: 8 word) - 1 = 0" by simp
    show ?thesis
      unfolding N using kc
      by (subst muluu_loop1_step [OF i])
         (simp_all add: nit one c1_def w_def mc2_def del: of_nat_Suc)
  qed
  have "val (window c1 k (Suc 0)) + 65536 ^ Suc 0 * unat mc2
      = unat mc + (\<Sum>t<Suc 0. dot a 0 b (k + t) (Suc (k + t)) * 65536 ^ t)"
    using 0 e(1) m1 by (simp add: c1_def w_def mc2_def window_update_here window_0)
  moreover have "drop N c1 = drop N c" "take k c1 = take k c" "length c1 = length c"
    by (simp_all add: c1_def N)
  moreover have "unat mc2 < 2 ^ 40" using e(2) by (simp add: mc2_def)
  ultimately show ?case using res by blast
next
  case (Suc r)
  have "unat mc + Suc k * (65535 * 65535) < 2 ^ 64"
    using Suc.prems by simp
  from muluu_inner_correct [of k 0 a k b mc, OF _ _ _ _ this] Suc.prems
  obtain mc1 where i: "muluu_inner a 0 b (int k) mc (of_nat (Suc k)) = Some mc1"
    and m1: "unat mc1 = unat mc + dot a 0 b k (Suc k)"
    by auto
  have "unat mc1 < 2 ^ 41"
    unfolding m1 using Suc.prems by (intro column_bound) simp_all
  note e = emit_word [OF this]
  define w :: "16 word" where "w = ucast (mc1 AND 0xFFFF)"
  define mc2 where "mc2 = drop_bit 16 mc1"
  define c1 where "c1 = c[k := w]"
  have cnt: "(of_nat (Suc (Suc r)) :: 8 word) - 1 = of_nat (Suc r)" by simp
  have nz: "(of_nat (Suc r) :: 8 word) \<noteq> 0"
    using Suc.prems word8_of_nat_eq0 [of "Suc r"] by simp
  have nit: "(of_nat (Suc k) :: 8 word) + 1 = of_nat (Suc (Suc k))" by simp
  have unf: "muluu_loop1 c (int k) a 0 b (int k) mc (of_nat (Suc (Suc r))) (of_nat (Suc k))
      = muluu_loop1 c1 (int (Suc k)) a 0 b (int (Suc k)) mc2 (of_nat (Suc r)) (of_nat (Suc (Suc k)))"
    using Suc.prems nz
    by (subst muluu_loop1_step [OF i]) (simp_all add: cnt nit c1_def w_def mc2_def del: of_nat_Suc)
  have p: "Suc k + Suc r = N" "N \<le> length c1" "unat mc2 < 2 ^ 40"
    using Suc.prems e(2) by (simp_all add: c1_def mc2_def)
  from Suc.IH [OF p(1) Suc.prems(2,3,4) p(2,3)]
  obtain c' mc' where
    r: "muluu_loop1 c1 (int (Suc k)) a 0 b (int (Suc k)) mc2 (of_nat (Suc r)) (of_nat (Suc (Suc k)))
          = Some (c', int N, int N, mc', of_nat (Suc N))"
    and len: "length c' = length c1"
    and tk: "take (Suc k) c' = take (Suc k) c1"
    and dr: "drop N c' = drop N c1"
    and b': "unat mc' < 2 ^ 40"
    and v: "val (window c' (Suc k) (Suc r)) + 65536 ^ Suc r * unat mc'
               = unat mc2 + (\<Sum>t<Suc r. dot a 0 b (Suc k + t) (Suc (Suc k + t)) * 65536 ^ t)"
    by blast
  have dlt: "k < length c" "k < length c'" "k < length c1"
    using Suc.prems len by (simp_all add: c1_def)
  have nth: "c' ! k = w" and tk': "take k c' = take k c"
    using window_cong_take [OF tk dlt(2) dlt(3)] dlt by (simp_all add: c1_def)
  let ?g = "\<lambda>j. dot a 0 b j (Suc j)"
  have "val (window c' k (Suc (Suc r))) + 65536 ^ Suc (Suc r) * unat mc'
      = unat w + 65536 * (val (window c' (Suc k) (Suc r)) + 65536 ^ Suc r * unat mc')"
    using dlt nth by (simp add: window_Suc [of k c'] algebra_simps)
  also have "\<dots> = (unat w + 65536 * unat mc2)
       + 65536 * (\<Sum>t<Suc r. ?g (Suc k + t) * 65536 ^ t)"
    by (simp only: v) (simp add: algebra_simps)
  also have "\<dots> = unat mc + (?g k + 65536 * (\<Sum>t<Suc r. ?g (Suc k + t) * 65536 ^ t))"
    using e(1) m1 by (simp add: w_def mc2_def)
  also have "\<dots> = unat mc + (\<Sum>t<Suc (Suc r). ?g (k + t) * 65536 ^ t)"
    by (simp only: sum_shift_weighted [of ?g k "Suc r"])
  finally have "val (window c' k (Suc (Suc r))) + 65536 ^ Suc (Suc r) * unat mc'
      = unat mc + (\<Sum>t<Suc (Suc r). dot a 0 b (k + t) (Suc (k + t)) * 65536 ^ t)" .
  moreover have "drop N c' = drop N c"
    using dr Suc.prems by (simp add: c1_def)
  ultimately show ?case
    using unf r len tk' b' by (simp add: c1_def)
qed

lemma muluu_loop2_step:
  assumes "muluu_inner a (int (Suc s)) b bp mc (niter2 - 1) = Some mc1" "k < length c"
  shows "muluu_loop2 c (int k) a (int s) b bp mc count niter2 =
           (if count - 1 \<noteq> 0
            then muluu_loop2 (c[k := ucast (mc1 AND 0xFFFF)]) (int (Suc k)) a (int (Suc s)) b bp
                   (drop_bit 16 mc1) (count - 1) (niter2 - 1)
            else Some (c[k := ucast (mc1 AND 0xFFFF)], int (Suc k), drop_bit 16 mc1))"
  using assms
  by (subst muluu_loop2.simps) (simp add: Let_def inb_def int_Suc_eq del: of_nat_Suc)

lemma sum_shift_weighted0:
  fixes h :: "nat \<Rightarrow> nat"
  shows "(\<Sum>t<Suc n. h t * 65536 ^ t) = h 0 + 65536 * (\<Sum>t<n. h (Suc t) * 65536 ^ t)"
  by (simp add: sum.lessThan_Suc_shift sum_distrib_left algebra_simps del: sum.lessThan_Suc)

lemma muluu_loop2_correct:
  assumes "s + r + 2 = N" "N \<le> 255" "length a = N" "length b = N" "2 * N \<le> length c"
    "unat mc < 2 ^ 40"
  shows "\<exists>c' mc'. muluu_loop2 c (int (N + s)) a (int s) b (int (N - 1)) mc
               (of_nat (Suc r)) (of_nat (Suc (Suc r)))
             = Some (c', int (2 * N - 1), mc')
           \<and> length c' = length c \<and> take (N + s) c' = take (N + s) c
           \<and> drop (2 * N - 1) c' = drop (2 * N - 1) c
           \<and> unat mc' < 2 ^ 40
           \<and> val (window c' (N + s) (Suc r)) + 65536 ^ Suc r * unat mc'
               = unat mc + (\<Sum>t<Suc r. dot a (Suc s + t) b (N - 1) (Suc r - t) * 65536 ^ t)"
  using assms
proof (induction r arbitrary: s c mc)
  case 0
  have N: "N = s + 2" using 0 by simp
  have nit: "(of_nat (Suc (Suc 0)) :: 8 word) - 1 = of_nat (Suc 0)" by simp
  have "unat mc + Suc 0 * (65535 * 65535) < 2 ^ 64"
    using 0 by simp
  from muluu_inner_correct [of 0 "Suc s" a "N - 1" b mc, OF _ _ _ _ this] 0
  obtain mc1 where i: "muluu_inner a (int (Suc s)) b (int (N - 1)) mc (of_nat (Suc 0)) = Some mc1"
    and m1: "unat mc1 = unat mc + dot a (Suc s) b (N - 1) (Suc 0)"
    by auto
  have "unat mc1 < 2 ^ 41"
    unfolding m1 using 0 by (intro column_bound) simp_all
  note e = emit_word [OF this]
  define w :: "16 word" where "w = ucast (mc1 AND 0xFFFF)"
  define mc2 where "mc2 = drop_bit 16 mc1"
  define c1 where "c1 = c[N + s := w]"
  have res: "muluu_loop2 c (int (N + s)) a (int s) b (int (N - 1)) mc
               (of_nat (Suc 0)) (of_nat (Suc (Suc 0)))
      = Some (c1, int (2 * N - 1), mc2)"
  proof -
    have kc: "N + s < length c" using 0 by simp
    have one: "(of_nat (Suc 0) :: 8 word) - 1 = 0" by simp
    have e: "Suc (N + s) = 2 * N - 1" using N by simp
    have i': "muluu_inner a (int (Suc s)) b (int (N - 1)) mc (of_nat (Suc (Suc 0)) - 1) = Some mc1"
      using i by (simp only: nit)
    show ?thesis
      using kc
      by (subst muluu_loop2_step [OF i'])
         (simp_all add: nit one e c1_def w_def mc2_def del: of_nat_Suc)
  qed
  have "val (window c1 (N + s) (Suc 0)) + 65536 ^ Suc 0 * unat mc2
      = unat mc + (\<Sum>t<Suc 0. dot a (Suc s + t) b (N - 1) (Suc 0 - t) * 65536 ^ t)"
    using 0 e(1) m1 by (simp add: c1_def w_def mc2_def window_update_here window_0)
  moreover have "drop (2 * N - 1) c1 = drop (2 * N - 1) c" "take (N + s) c1 = take (N + s) c"
    "length c1 = length c"
    by (simp_all add: c1_def N)
  moreover have "unat mc2 < 2 ^ 40" using e(2) by (simp add: mc2_def)
  ultimately show ?case using res by blast
next
  case (Suc r)
  have nit: "(of_nat (Suc (Suc (Suc r))) :: 8 word) - 1 = of_nat (Suc (Suc r))" by simp
  have "unat mc + Suc (Suc r) * (65535 * 65535) < 2 ^ 64"
    using Suc.prems by simp
  from muluu_inner_correct [of "Suc r" "Suc s" a "N - 1" b mc, OF _ _ _ _ this] Suc.prems
  obtain mc1 where
    i: "muluu_inner a (int (Suc s)) b (int (N - 1)) mc (of_nat (Suc (Suc r))) = Some mc1"
    and m1: "unat mc1 = unat mc + dot a (Suc s) b (N - 1) (Suc (Suc r))"
    by auto
  have "unat mc1 < 2 ^ 41"
    unfolding m1 using Suc.prems by (intro column_bound) simp_all
  note e = emit_word [OF this]
  define w :: "16 word" where "w = ucast (mc1 AND 0xFFFF)"
  define mc2 where "mc2 = drop_bit 16 mc1"
  define c1 where "c1 = c[N + s := w]"
  have cnt: "(of_nat (Suc (Suc r)) :: 8 word) - 1 = of_nat (Suc r)" by simp
  have nz: "(of_nat (Suc r) :: 8 word) \<noteq> 0"
    using Suc.prems word8_of_nat_eq0 [of "Suc r"] by simp
  have unf: "muluu_loop2 c (int (N + s)) a (int s) b (int (N - 1)) mc
               (of_nat (Suc (Suc r))) (of_nat (Suc (Suc (Suc r))))
      = muluu_loop2 c1 (int (N + Suc s)) a (int (Suc s)) b (int (N - 1)) mc2
               (of_nat (Suc r)) (of_nat (Suc (Suc r)))"
  proof -
    have kc: "N + s < length c" using Suc.prems by simp
    have i': "muluu_inner a (int (Suc s)) b (int (N - 1)) mc (of_nat (Suc (Suc (Suc r))) - 1)
        = Some mc1"
      using i by (simp only: nit)
    show ?thesis
      using kc nz
      by (subst muluu_loop2_step [OF i'])
         (simp_all add: nit cnt c1_def w_def mc2_def del: of_nat_Suc)
  qed
  have p: "Suc s + r + 2 = N" "2 * N \<le> length c1" "unat mc2 < 2 ^ 40"
    using Suc.prems e(2) by (simp_all add: c1_def mc2_def)
  from Suc.IH [OF p(1) Suc.prems(2,3,4) p(2,3)]
  obtain c' mc' where
    r: "muluu_loop2 c1 (int (N + Suc s)) a (int (Suc s)) b (int (N - 1)) mc2
               (of_nat (Suc r)) (of_nat (Suc (Suc r)))
          = Some (c', int (2 * N - 1), mc')"
    and len: "length c' = length c1"
    and tk: "take (N + Suc s) c' = take (N + Suc s) c1"
    and dr: "drop (2 * N - 1) c' = drop (2 * N - 1) c1"
    and b': "unat mc' < 2 ^ 40"
    and v: "val (window c' (N + Suc s) (Suc r)) + 65536 ^ Suc r * unat mc'
               = unat mc2 + (\<Sum>t<Suc r. dot a (Suc (Suc s) + t) b (N - 1) (Suc r - t) * 65536 ^ t)"
    by blast
  have dlt: "N + s < length c" "N + s < length c'" "N + s < length c1"
    using Suc.prems len by (simp_all add: c1_def)
  have tk0: "take (Suc (N + s)) c' = take (Suc (N + s)) c1" using tk by simp
  have nth: "c' ! (N + s) = w" and tk': "take (N + s) c' = take (N + s) c"
    using window_cong_take [OF tk0 dlt(2) dlt(3)] dlt by (simp_all add: c1_def)
  let ?h = "\<lambda>t. dot a (Suc s + t) b (N - 1) (Suc (Suc r) - t)"
  have hh: "(\<Sum>t<Suc r. dot a (Suc (Suc s) + t) b (N - 1) (Suc r - t) * 65536 ^ t)
      = (\<Sum>t<Suc r. ?h (Suc t) * 65536 ^ t)"
    by simp
  have "val (window c' (N + s) (Suc (Suc r))) + 65536 ^ Suc (Suc r) * unat mc'
      = unat w + 65536 * (val (window c' (N + Suc s) (Suc r)) + 65536 ^ Suc r * unat mc')"
    using dlt nth by (simp add: window_Suc [of "N + s" c'] algebra_simps)
  also have "\<dots> = (unat w + 65536 * unat mc2)
       + 65536 * (\<Sum>t<Suc r. ?h (Suc t) * 65536 ^ t)"
    by (simp only: v hh) (simp add: algebra_simps)
  also have "\<dots> = unat mc + (?h 0 + 65536 * (\<Sum>t<Suc r. ?h (Suc t) * 65536 ^ t))"
    using e(1) m1 by (simp add: w_def mc2_def)
  also have "\<dots> = unat mc + (\<Sum>t<Suc (Suc r). ?h t * 65536 ^ t)"
    by (simp only: sum_shift_weighted0 [of ?h "Suc r"])
  finally have "val (window c' (N + s) (Suc (Suc r))) + 65536 ^ Suc (Suc r) * unat mc'
      = unat mc + (\<Sum>t<Suc (Suc r). dot a (Suc s + t) b (N - 1) (Suc (Suc r) - t) * 65536 ^ t)" .
  moreover have "drop (2 * N - 1) c' = drop (2 * N - 1) c"
    using dr Suc.prems by (simp add: c1_def)
  ultimately show ?case
    using unf r len tk' b' by (simp add: c1_def)
qed

lemma val_sum: "val xs = (\<Sum>i<length xs. unat (xs ! i) * 65536 ^ i)"
proof (induction xs)
  case Nil
  show ?case by simp
next
  case (Cons x xs)
  have "(\<Sum>i<length (x # xs). unat ((x # xs) ! i) * 65536 ^ i)
      = unat x + (\<Sum>i<length xs. unat (xs ! i) * 65536 ^ Suc i)"
    by (simp add: sum.lessThan_Suc_shift del: sum.lessThan_Suc power_Suc)
  also have "\<dots> = unat x + 65536 * (\<Sum>i<length xs. unat (xs ! i) * 65536 ^ i)"
    by (simp add: sum_distrib_left algebra_simps)
  finally show ?case using Cons.IH by simp
qed

lemma conv_lower:
  "(\<Sum>t<N. dot a 0 b t (Suc t) * 65536 ^ t) = sum (term_prod a b) {(i, j). i + j < N}"
proof -
  have "(\<Sum>t<N. dot a 0 b t (Suc t) * 65536 ^ t)
      = (\<Sum>t<N. \<Sum>u<Suc t. unat (a ! u) * unat (b ! (t - u)) * 65536 ^ t)"
    by (simp add: dot_def sum_distrib_right del: sum.lessThan_Suc)
  also have "\<dots> = (\<Sum>(t, u)\<in>(SIGMA t:{..<N}. {..<Suc t}).
                      unat (a ! u) * unat (b ! (t - u)) * 65536 ^ t)"
    by (rule sum.Sigma) simp_all
  also have "\<dots> = sum (term_prod a b) {(i, j). i + j < N}"
    by (rule sum.reindex_bij_witness [where i = "\<lambda>(i, j). (i + j, i)" and j = "\<lambda>(t, u). (u, t - u)"])
       (auto simp: term_prod_def)
  finally show ?thesis .
qed

lemma conv_upper:
  "65536 ^ N * (\<Sum>t<N - 1. dot a (Suc t) b (N - 1) (N - 1 - t) * 65536 ^ t)
     = sum (term_prod a b) {(i, j). i < N \<and> j < N \<and> N \<le> i + j}"
proof -
  have "65536 ^ N * (\<Sum>t<N - 1. dot a (Suc t) b (N - 1) (N - 1 - t) * 65536 ^ t)
      = (\<Sum>t<N - 1. \<Sum>u<N - 1 - t. unat (a ! (Suc t + u)) * unat (b ! (N - 1 - u)) * 65536 ^ (N + t))"
    by (simp add: dot_def sum_distrib_right sum_distrib_left power_add algebra_simps)
  also have "\<dots> = (\<Sum>(t, u)\<in>(SIGMA t:{..<N - 1}. {..<N - 1 - t}).
                      unat (a ! (Suc t + u)) * unat (b ! (N - 1 - u)) * 65536 ^ (N + t))"
    by (rule sum.Sigma) simp_all
  also have "\<dots> = sum (term_prod a b) {(i, j). i < N \<and> j < N \<and> N \<le> i + j}"
  proof -
    have pw: "(65536 :: nat) * 65536 ^ (t + N - Suc 0) = 65536 ^ (N + t)" if "t < N - Suc 0" for t
    proof -
      have "Suc (t + N - Suc 0) = N + t" using that by simp
      then show ?thesis by (metis power_Suc)
    qed
    show ?thesis
    by (rule sum.reindex_bij_witness
          [where i = "\<lambda>(i, j). (i + j - N, N - 1 - j)" and j = "\<lambda>(t, u). (Suc t + u, N - 1 - u)"])
       (auto simp: term_prod_def pw)
  qed
  finally show ?thesis .
qed

lemma conv_product:
  assumes "length a = N" "length b = N"
  shows "val a * val b = sum (term_prod a b) ({..<N} \<times> {..<N})"
proof -
  have "val a * val b
      = (\<Sum>i<N. unat (a ! i) * 65536 ^ i) * (\<Sum>j<N. unat (b ! j) * 65536 ^ j)"
    using assms by (simp add: val_sum)
  also have "\<dots> = (\<Sum>i<N. \<Sum>j<N. (unat (a ! i) * 65536 ^ i) * (unat (b ! j) * 65536 ^ j))"
    by (rule sum_product)
  also have "\<dots> = (\<Sum>(i, j)\<in>{..<N} \<times> {..<N}.
                       (unat (a ! i) * 65536 ^ i) * (unat (b ! j) * 65536 ^ j))"
    by (rule sum.cartesian_product)
  also have "\<dots> = sum (term_prod a b) ({..<N} \<times> {..<N})"
    by (rule sum.cong) (auto simp: term_prod_def power_add)
  finally show ?thesis .
qed

lemma convolution:
  assumes "length a = N" "length b = N"
  shows "(\<Sum>t<N. dot a 0 b t (Suc t) * 65536 ^ t)
           + 65536 ^ N * (\<Sum>t<N - 1. dot a (Suc t) b (N - 1) (N - 1 - t) * 65536 ^ t)
         = val a * val b"
proof -
  let ?L = "{(i, j). i + j < N}" and ?U = "{(i, j). i < N \<and> j < N \<and> N \<le> i + j}"
  have fin: "finite ?L" "finite ?U"
    by (rule finite_subset [of _ "{..<N} \<times> {..<N}"]; auto)+
  have un: "?L \<union> ?U = {..<N} \<times> {..<N}" by auto
  have dj: "?L \<inter> ?U = {}" by auto
  have "sum (term_prod a b) ?L + sum (term_prod a b) ?U = sum (term_prod a b) (?L \<union> ?U)"
    using fin dj by (simp add: sum.union_disjoint)
  then show ?thesis
    by (simp only: conv_lower conv_upper un conv_product [OF assms])
qed

lemma val_replicate_zero: "val (replicate n 0) = 0"
  by (induction n) simp_all

lemma mpi_muluu_correct:
  assumes "2 \<le> N" "N \<le> 255" "length a = N" "length b = N" "length c = 2 * N"
  shows "\<exists>c'. mpi_muluu N c 0 a 0 b 0 = Some c' \<and> length c' = 2 * N \<and> val c' = val a * val b"
proof -
  obtain r where r: "N = Suc (Suc r)"
    using assms(1) by (metis Suc_le_D numeral_2_eq_2 Suc_le_mono add_2_eq_Suc le_Suc_ex)
  let ?S1 = "\<Sum>t<N. dot a 0 b t (Suc t) * 65536 ^ t"
  let ?S2 = "\<Sum>t<N - 1. dot a (Suc t) b (N - 1) (N - 1 - t) * 65536 ^ t"
  have z: "unat (0 :: 64 word) < 2 ^ 40" by simp
  have "0 + Suc (Suc r) = N" "N \<le> length c" using r assms by simp_all
  from muluu_loop1_correct [OF this(1) assms(2,3,4) this(2) z]
  obtain c1 mc1 where
    l1: "muluu_loop1 c (int 0) a 0 b (int 0) 0 (of_nat (Suc (Suc r))) (of_nat (Suc 0))
           = Some (c1, int N, int N, mc1, of_nat (Suc N))"
    and len1: "length c1 = length c" and b1: "unat mc1 < 2 ^ 40"
    and v1: "val (window c1 0 (Suc (Suc r))) + 65536 ^ Suc (Suc r) * unat mc1
               = unat (0 :: 64 word) + (\<Sum>t<Suc (Suc r). dot a 0 b (0 + t) (Suc (0 + t)) * 65536 ^ t)"
    by blast
  have v1': "val (window c1 0 N) + 65536 ^ N * unat mc1 = ?S1"
    using v1 unfolding r by simp
  have "0 + r + 2 = N" "2 * N \<le> length c1" using r assms len1 by simp_all
  from muluu_loop2_correct [OF this(1) assms(2,3,4) this(2) b1]
  obtain c2 mc2 where
    l2: "muluu_loop2 c1 (int (N + 0)) a (int 0) b (int (N - 1)) mc1 (of_nat (Suc r))
            (of_nat (Suc (Suc r))) = Some (c2, int (2 * N - 1), mc2)"
    and len2: "length c2 = length c1" and tk2: "take (N + 0) c2 = take (N + 0) c1"
    and v2: "val (window c2 (N + 0) (Suc r)) + 65536 ^ Suc r * unat mc2
               = unat mc1 + (\<Sum>t<Suc r. dot a (Suc 0 + t) b (N - 1) (Suc r - t) * 65536 ^ t)"
    by blast
  have v2': "val (window c2 N (N - 1)) + 65536 ^ (N - 1) * unat mc2 = unat mc1 + ?S2"
    using v2 unfolding r by simp
  define w :: "16 word" where "w = ucast (mc2 AND 0xFFFF)"
  define c3 where "c3 = c2[2 * N - 1 := w]"
  have cnt: "(of_nat N :: 8 word) = of_nat (Suc (Suc r))" "(of_int (int N - 1) :: 8 word) = of_nat (Suc r)"
    "(of_nat (Suc N) :: 8 word) - 1 = of_nat (Suc (Suc r))" "int N - 1 = int (N - 1)"
    unfolding r by simp_all
  have res: "mpi_muluu N c 0 a 0 b 0 = Some c3"
  proof -
    have nn: "nat (3 + 2 * int r) = Suc (Suc (Suc (2 * r)))" by arith
    show ?thesis
      using l1 l2 len1 len2 assms(5)
      by (simp add: mpi_muluu_def inb_def c3_def w_def r nn)
  qed
  have lo: "window c2 0 N = window c1 0 N"
    using tk2 by (simp add: window_def)
  have split: "c3 = window c2 0 N @ window c2 N (N - 1) @ [w]"
  proof -
    have "c3 = take (2 * N - 1) c2 @ [w]"
      using len2 len1 assms unfolding c3_def
      by (metis (no_types, lifting) upd_conv_take_nth_drop drop_all Suc_diff_1 Suc_leI
          le_refl diff_less length_greater_0_conv less_numeral_extra(1) list.size(3)
          mult_eq_0_iff not_less_eq_eq zero_less_numeral drop_Suc_Cons drop0 id_take_nth_drop
          append_Nil2 append_take_drop_id take_all same_append_eq)
    also have "take (2 * N - 1) c2 = take N c2 @ take (N - 1) (drop N c2)"
      using assms by (metis take_add mult_2 Nat.add_diff_assoc Suc_1 Suc_le_lessD less_imp_le_nat
          One_nat_def Suc_leD)
    finally show ?thesis by (simp add: window_def)
  qed
  have lens: "length (window c2 0 N) = N" "length (window c2 N (N - 1)) = N - 1"
    using len1 len2 assms by (simp_all add: window_def)
  have pw: "(65536 :: nat) ^ (2 * N - 1) = 65536 ^ N * 65536 ^ (N - 1)"
  proof -
    have "2 * N - 1 = N + (N - 1)" using assms by simp
    then show ?thesis by (simp only: power_add)
  qed
  have tot: "val (window c1 0 N) + 65536 ^ N * val (window c2 N (N - 1))
        + 65536 ^ (2 * N - 1) * unat mc2 = val a * val b"
  proof -
    have "val (window c1 0 N) + 65536 ^ N * val (window c2 N (N - 1))
        + 65536 ^ (2 * N - 1) * unat mc2
      = val (window c1 0 N)
        + 65536 ^ N * (val (window c2 N (N - 1)) + 65536 ^ (N - 1) * unat mc2)"
      by (simp only: pw) (simp add: algebra_simps)
    also have "\<dots> = (val (window c1 0 N) + 65536 ^ N * unat mc1) + 65536 ^ N * ?S2"
      by (simp only: v2') (simp add: algebra_simps)
    also have "\<dots> = ?S1 + 65536 ^ N * ?S2"
      by (simp only: v1')
    also have "\<dots> = val a * val b"
      using assms by (intro convolution) simp_all
    finally show ?thesis .
  qed
  have "val a * val b < 65536 ^ N * 65536 ^ N"
    using val_bound [of a] val_bound [of b] assms
    by (intro mult_strict_mono) simp_all
  also have "\<dots> = 65536 ^ (2 * N - 1) * (65536 :: nat)"
    using assms by (simp flip: power_add power_Suc2)
  finally have lt: "val a * val b < 65536 ^ (2 * N - 1) * (65536 :: nat)" .
  have "65536 ^ (2 * N - 1) * unat mc2 \<le> val a * val b"
    by (subst tot [symmetric]) simp
  then have "65536 ^ (2 * N - 1) * unat mc2 < 65536 ^ (2 * N - 1) * (65536 :: nat)"
    using lt by (rule le_less_trans)
  then have m2: "unat mc2 < 65536" by simp
  then have w: "unat w = unat mc2"
    by (simp add: w_def unat_low16_64)
  have "val c3 = val (window c2 0 N) + 65536 ^ N * (val (window c2 N (N - 1))
                   + 65536 ^ (N - 1) * unat w)"
    by (subst split) (simp only: val_append lens val.simps, simp)
  also have "\<dots> = val (window c1 0 N) + 65536 ^ N * val (window c2 N (N - 1))
        + 65536 ^ (2 * N - 1) * unat mc2"
    by (simp only: pw lo w) (simp add: algebra_simps)
  also have "\<dots> = val a * val b" by (rule tot)
  finally have "val c3 = val a * val b" .
  moreover have "length c3 = 2 * N"
    using len1 len2 assms by (simp add: c3_def)
  ultimately show ?thesis using res by simp
qed

text \<open>
  C3.  For single-width \<open>a\<close> and \<open>b\<close>, \<open>mpi_muluu\<close> writes all \<open>2N\<close> words of
  the output buffer, and their value as a base-\<open>2^16\<close> integer is the exact product
  \<open>a * b\<close>; a zero operand gives an all-zero product.
\<close>

theorem mpi_muluu_product:
  assumes "2 \<le> N" "N \<le> 255" "length a = N" "length b = N" "length c = 2 * N"
  shows "\<exists>c'. mpi_muluu N c 0 a 0 b 0 = Some c' \<and> length c' = 2 * N
           \<and> val c' = val a * val b
           \<and> (val a = 0 \<or> val b = 0 \<longrightarrow> c' = replicate (2 * N) 0)"
proof -
  from mpi_muluu_correct [OF assms]
  obtain c' where r: "mpi_muluu N c 0 a 0 b 0 = Some c'" "length c' = 2 * N"
    "val c' = val a * val b"
    by blast
  have "c' = replicate (2 * N) 0" if "val a = 0 \<or> val b = 0"
  proof -
    have "val c' = val (replicate (2 * N) 0)"
      using that r(3) by (auto simp: val_replicate_zero)
    then show ?thesis using r(2) by (intro val_inj) simp_all
  qed
  then show ?thesis using r by auto
qed

theorem mpi_muluu_product_witness:
  "2 \<le> (2::nat) \<and> (2::nat) \<le> 255 \<and> length [0xFFFF, 0xFFFF :: 16 word] = 2
   \<and> length [0xFFFF, 0xFFFF :: 16 word] = 2 \<and> length [7, 7, 7, 7 :: 16 word] = 2 * 2
   \<and> mpi_muluu 2 [7, 7, 7, 7] 0 [0xFFFF, 0xFFFF] 0 [0xFFFF, 0xFFFF] 0 = Some [1, 0, 0xFFFE, 0xFFFF]
   \<and> val [1, 0, 0xFFFE, 0xFFFF] = val [0xFFFF, 0xFFFF] * val [0xFFFF, 0xFFFF]
   \<and> mpi_muluu 2 [7, 7, 7, 7] 0 [0, 0] 0 [0xFFFF, 0xFFFF] 0 = Some (replicate (2 * 2) 0)"
proof -
  have "mpi_muluu 2 [7, 7, 7, 7] 0 [0xFFFF, 0xFFFF] 0 [0xFFFF, 0xFFFF] 0 = Some [1, 0, 0xFFFE, 0xFFFF]"
    by code_simp
  moreover have "val [0xFFFF, 0xFFFF] * val [0xFFFF, 0xFFFF] = val [1, 0, 0xFFFE, 0xFFFF]"
    by simp
  moreover have "\<exists>c'. mpi_muluu 2 [7, 7, 7, 7] 0 [0, 0] 0 [0xFFFF, 0xFFFF] 0 = Some c'
      \<and> (val [0, 0] = 0 \<or> val [0xFFFF, 0xFFFF] = 0 \<longrightarrow> c' = replicate (2 * 2) 0)"
    using mpi_muluu_product [of 2 "[0, 0]" "[0xFFFF, 0xFFFF]" "[7, 7, 7, 7]"] by auto
  then have "mpi_muluu 2 [7, 7, 7, 7] 0 [0, 0] 0 [0xFFFF, 0xFFFF] 0 = Some (replicate (2 * 2) 0)"
    by auto
  ultimately show ?thesis by simp
qed

text \<open>
  With \<open>N = 1\<close> the second outer loop of \<open>mpi_muluu\<close> starts with both of its
  8-bit counters at 0 and runs off the operands.
\<close>

lemma mpi_muluu_one_word: "mpi_muluu 1 [7, 7] 0 [3] 0 [5] 0 = None"
  by code_simp

section \<open>Correctness of reduction\<close>

lemma bit16_test:
  fixes c :: "32 word"
  assumes "unat c < 2 * 65536"
  shows "c AND 0x10000 = 0 \<longleftrightarrow> unat c < 65536"
proof -
  have e: "(0x10000 :: 32 word) = 2 ^ 16" by simp
  have "c AND 0x10000 = 0 \<longleftrightarrow> \<not> bit c 16"
    unfolding e by (rule and_exp_eq_0_iff_not_bit)
  also have "bit c 16 \<longleftrightarrow> bit (unat c) 16"
    by (simp add: bit_unsigned_iff)
  also have "bit (unat c) 16 \<longleftrightarrow> odd (unat c div 2 ^ 16)"
    by (rule bit_iff_odd)
  also have "\<not> odd (unat c div 2 ^ 16) \<longleftrightarrow> unat c < 65536"
  proof
    assume "unat c < 65536"
    then show "\<not> odd (unat c div 2 ^ 16)" by simp
  next
    assume a: "\<not> odd (unat c div 2 ^ 16)"
    have "unat c div 65536 < 2" using assms by simp
    then have "unat c div 65536 = 0" using a by (cases "unat c div 65536") auto
    then show "unat c < 65536" by simp
  qed
  finally show ?thesis .
qed

lemma unat_top2:
  fixes x y :: "16 word"
  shows "unat (push_bit 16 (ucast x :: 32 word) OR ucast y) = unat x * 65536 + unat y"
proof -
  have "push_bit 16 (ucast x :: 32 word) + ucast y = push_bit 16 (ucast x) OR ucast y"
    by (rule disjunctive_add) (auto simp: bit_simps dest: bit_imp_le_length)
  moreover have "unat (push_bit 16 (ucast x :: 32 word) + ucast y) = unat x * 65536 + unat y"
  proof -
    have p: "unat (push_bit 16 (ucast x :: 32 word)) = unat x * 65536"
      using unat16_lt [of x]
      by (simp add: push_bit_eq_mult unat_word_ariths unat_ucast_16_32)
    show ?thesis
      using unat16_lt [of x] unat16_lt [of y]
      by (simp add: unat_word_ariths(1) p unat_ucast_16_32)
  qed
  ultimately show ?thesis by simp
qed

lemma unat_clamp:
  fixes pq1 :: "32 word"
  shows "unat (ucast (if 0xFFFF < pq1 then 0xFFFF else pq1) :: 16 word) = min (unat pq1) 65535"
proof (cases "0xFFFF < pq1")
  case True
  then have "65535 < unat pq1" by (simp add: word_less_nat_alt)
  then show ?thesis using True by simp
next
  case False
  then have "unat pq1 \<le> 65535" by (simp add: word_less_nat_alt)
  then show ?thesis using False
    by (simp add: unsigned_ucast_eq take_bit_eq_mod)
qed

text \<open>
  The trial quotient digit of \<open>mpi_moduu\<close>: the top two words \<open>T\<close> of the partial
  remainder \<open>U\<close> divided by the top word \<open>v\<close> of the divisor \<open>V\<close>, clamped to
  \<open>0xFFFF\<close>.  \<open>P\<close> is the weight of the divisor's top word.
\<close>

lemma qhat_lower:
  fixes U V T v P :: nat
  assumes "v * P \<le> V" "U < Suc T * P" "U < 65536 * V" "0 < v"
  shows "U div V \<le> min (T div v) 65535"
proof (cases "65535 \<le> T div v")
  case True
  have "U div V < 65536"
    using assms(3) by (rule less_mult_imp_div_less)
  then show ?thesis using True by simp
next
  case False
  define qh where "qh = T div v"
  have "T < Suc qh * v"
    unfolding qh_def using assms(4) by (simp add: dividend_less_div_times)
  then have "Suc T \<le> Suc qh * v" by simp
  then have "Suc T * P \<le> Suc qh * v * P" by (rule mult_le_mono1)
  also have "\<dots> = Suc qh * (v * P)" by (simp only: mult.assoc)
  also have "\<dots> \<le> Suc qh * V" using assms(1) by (rule mult_le_mono2)
  finally have "U < Suc qh * V" using assms(2) by simp
  then have "U div V < Suc qh" by (rule less_mult_imp_div_less)
  then show ?thesis using False by (simp add: qh_def)
qed

lemma qhat_upper:
  fixes U V T v P :: nat
  assumes "v * P \<le> V" "V < Suc v * P" "T * P \<le> U" "65536 \<le> 2 * v" "0 < P"
  shows "min (T div v) 65535 \<le> U div V + 2"
proof (rule ccontr)
  assume "\<not> min (T div v) 65535 \<le> U div V + 2"
  define q where "q = U div V"
  define qh where "qh = min (T div v) 65535"
  have gt: "q + 3 \<le> qh" using \<open>\<not> min (T div v) 65535 \<le> U div V + 2\<close>
    unfolding q_def qh_def by linarith
  have Vpos: "0 < V" using assms(1,4,5) by (cases V) auto
  have "qh * v \<le> (T div v) * v" by (intro mult_le_mono1) (simp add: qh_def)
  also have "\<dots> \<le> T" by simp
  finally have "qh * v \<le> T" .
  have "(q + 3) * v * P \<le> qh * v * P"
    using gt by (intro mult_le_mono1)
  also have "\<dots> \<le> T * P" using \<open>qh * v \<le> T\<close> by (rule mult_le_mono1)
  also have "\<dots> \<le> U" by (rule assms(3))
  also have "U < Suc q * V"
    unfolding q_def using Vpos by (simp add: dividend_less_div_times)
  also have "\<dots> < Suc q * (Suc v * P)"
    using assms(2) by (intro mult_strict_left_mono) simp_all
  finally have "(q + 3) * v * P < Suc q * Suc v * P" by (simp only: mult.assoc)
  then have "(q + 3) * v < Suc q * Suc v" by (simp only: mult_less_cancel2)
  then have "2 * v < q + 1" by (simp add: algebra_simps)
  then have "65536 \<le> q" using assms(4) by simp
  moreover have "qh \<le> 65535" by (simp add: qh_def)
  ultimately show False using gt by simp
qed

lemma nth_of_drop_eq:
  assumes "drop k xs = drop k ys" "k < length xs" "k < length ys"
  shows "xs ! k = ys ! k"
  using assms by (metis Cons_nth_drop_Suc list.inject)

lemma unat_ucast_8_32: "unat (ucast (x :: 8 word) :: 32 word) = unat x"
proof -
  have "unat x < 256" using unsigned_less [of x, where 'a = nat] by simp
  then show ?thesis by (simp add: unsigned_ucast_eq take_bit_eq_mod)
qed

lemma moduu_addback_correct:
  assumes "0 < N" "N \<le> 255" "p + N + 1 \<le> length a" "length b = N"
  shows "\<exists>a' carry ov. moduu_addback N a (int p) b 0 = Some (a', carry)
           \<and> length a' = length a \<and> take p a' = take p a
           \<and> drop (p + N + 1) a' = drop (p + N + 1) a
           \<and> ov \<le> 1 \<and> (carry AND 0x10000 = 0 \<longleftrightarrow> ov = 0)
           \<and> val (window a' p (N + 1)) + 65536 ^ (N + 1) * ov
               = val (window a p (N + 1)) + val b"
proof -
  from mpi_add_correct [of N p a 0 b] assms
  obtain a1 cy where
    ad: "mpi_add N a (int p) b 0 = Some (a1, cy)"
    and len: "length a1 = length a" and tk: "take p a1 = take p a"
    and dr: "drop (p + N) a1 = drop (p + N) a" and cy: "unat cy \<le> 1"
    and v: "val (window a1 p N) + 65536 ^ N * unat cy = val (window a p N) + val b"
    by (auto simp: window_whole)
  have top: "a1 ! (p + N) = a ! (p + N)"
    using dr len assms by (intro nth_of_drop_eq) simp_all
  define carry :: "32 word" where "carry = ucast cy + ucast (a1 ! (p + N))"
  define w :: "16 word" where "w = ucast (carry AND 0xFFFF)"
  define a2 where "a2 = a1[p + N := w]"
  define ov where "ov = unat carry div 65536"
  have uc: "unat carry = unat cy + unat (a ! (p + N))"
    unfolding carry_def top using cy unat16_lt [of "a ! (p + N)"]
    by (simp add: unat_word_ariths(1) unat_ucast_8_32 unat_ucast_16_32)
  have lt: "unat carry < 2 * 65536"
    using uc cy unat16_lt [of "a ! (p + N)"] by simp
  have o1: "ov \<le> 1" using lt by (simp add: ov_def)
  have o0: "carry AND 0x10000 = 0 \<longleftrightarrow> ov = 0"
    using bit16_test [OF lt] by (simp add: ov_def div_eq_0_iff)
  have wv: "unat w + 65536 * ov = unat carry"
    by (simp add: w_def ov_def unat_low16_32)
  have idx: "nat (int p + int N) = p + N" by simp
  have res: "moduu_addback N a (int p) b 0 = Some (a2, carry)"
    using assms len
    by (simp add: moduu_addback_def ad inb_def Let_def idx carry_def w_def a2_def flip: of_nat_add)
  have wa: "window a p (Suc N) = window a p N @ [a ! (p + N)]"
    using assms by (simp add: window_snoc)
  have wa2: "window a2 p (Suc N) = window a1 p N @ [w]"
    using assms len by (simp add: window_snoc a2_def window_update_above)
  have lw: "length (window a p N) = N" "length (window a1 p N) = N"
    using assms len by (simp_all add: length_window)
  have "val (window a2 p (Suc N)) + 65536 ^ Suc N * ov + 65536 ^ N * unat cy
      = (val (window a1 p N) + 65536 ^ N * unat cy) + 65536 ^ N * (unat w + 65536 * ov)"
    by (simp add: wa2 val_append lw algebra_simps)
  also have "\<dots> = (val (window a p N) + val b) + 65536 ^ N * (unat cy + unat (a ! (p + N)))"
    by (simp only: v wv uc)
  also have "\<dots> = val (window a p (Suc N)) + val b + 65536 ^ N * unat cy"
    by (simp add: wa val_append lw algebra_simps)
  finally have "val (window a2 p (N + 1)) + 65536 ^ (N + 1) * ov
      = val (window a p (N + 1)) + val b"
    by simp
  moreover have "take p a2 = take p a" using tk by (simp add: a2_def)
  moreover have "drop (p + N + 1) a2 = drop (p + N + 1) a"
  proof -
    have "drop (p + N + 1) a2 = drop 1 (drop (p + N) a1)" by (simp add: a2_def)
    also have "\<dots> = drop (p + N + 1) a" by (simp only: dr) simp
    finally show ?thesis .
  qed
  moreover have "length a2 = length a" using len by (simp add: a2_def)
  ultimately show ?thesis using res o1 o0 by blast
qed

lemma val_high_zero:
  assumes "val (xs @ ys) < 65536 ^ length xs"
  shows "val ys = 0" and "val (xs @ ys) = val xs"
proof -
  show z: "val ys = 0"
  proof (rule ccontr)
    assume "val ys \<noteq> 0"
    then have "(65536 :: nat) ^ length xs \<le> 65536 ^ length xs * val ys"
      by simp
    moreover have "65536 ^ length xs * val ys \<le> val (xs @ ys)"
      by (simp add: val_append)
    ultimately show False using assms by linarith
  qed
  show "val (xs @ ys) = val xs" by (simp add: val_append z)
qed

lemma correction_cases:
  fixes U V M qh W1 r rm q :: nat
  assumes "q \<le> qh" "qh \<le> q + 2" "U = q * V + rm" "rm < V" "W1 < M" "W1 + V * qh + M * r = U + M"
  shows "r = 1 \<Longrightarrow> W1 = rm"
    and "r = 0 \<Longrightarrow> W2 + M * ov = W1 + V \<Longrightarrow> W2 < M \<Longrightarrow> ov = 1 \<Longrightarrow> W2 = rm"
    and "r = 0 \<Longrightarrow> W2 + M * ov = W1 + V \<Longrightarrow> W2 < M \<Longrightarrow> ov = 0
           \<Longrightarrow> W3 + M * ov3 = W2 + V \<Longrightarrow> W3 < M \<Longrightarrow> ov3 \<le> 1 \<Longrightarrow> W3 = rm"
proof -
  define X where "X = q * V"
  obtain k where k: "qh = q + k" "k \<le> 2"
    using assms(1,2) by (metis le_Suc_ex nat_add_left_cancel_le)
  have kv: "k * V = 0 \<or> k * V = V \<or> k * V = V + V"
  proof -
    have "k = 0 \<or> k = 1 \<or> k = 2" using k(2) by auto
    then show ?thesis by auto
  qed
  have "V * qh = X + k * V" by (simp add: k X_def algebra_simps)
  then have e: "W1 + (X + k * V) + M * r = X + rm + M"
    using assms(6) by (simp add: assms(3) X_def)
  show "W1 = rm" if "r = 1"
  proof -
    have "W1 + (X + k * V) + M = X + rm + M" using e that by simp
    then show ?thesis using kv assms(4) by linarith
  qed
  show "W2 = rm" if "r = 0" "W2 + M * ov = W1 + V" "W2 < M" "ov = 1"
  proof -
    have "W1 + (X + k * V) = X + rm + M" using e that by simp
    moreover have "W2 + M = W1 + V" using that by simp
    ultimately show ?thesis using kv assms(4,5) by linarith
  qed
  show "W3 = rm" if "r = 0" "W2 + M * ov = W1 + V" "W2 < M" "ov = 0"
    "W3 + M * ov3 = W2 + V" "W3 < M" "ov3 \<le> 1"
  proof -
    have a: "W1 + (X + k * V) = X + rm + M" using e that by simp
    have b: "W2 = W1 + V" using that by simp
    have "M * ov3 = 0 \<or> M * ov3 = M" using that(7) by (cases ov3) auto
    then show ?thesis using a b kv assms(4,5) that(3,5,6) by linarith
  qed
qed

lemma moduu_flag_eq:
  assumes "0 < N" "p + N \<le> length a"
  shows "moduu_flag N a (int p) = Some (a, if a ! (p + N - 1) \<noteq> 0 then 1 else 0)"
proof -
  have "nat (int p + (int N - 1)) = p + N - 1" using assms by simp
  then show ?thesis using assms by (simp add: moduu_flag_def inb_def)
qed

lemma top_word_bounds:
  assumes "0 < n" "length xs = n"
  shows "unat (xs ! (n - 1)) * 65536 ^ (n - 1) \<le> val xs"
    and "val xs < Suc (unat (xs ! (n - 1))) * 65536 ^ (n - 1)"
proof -
  have xs: "xs = take (n - 1) xs @ [xs ! (n - 1)]"
    using assms by (metis Suc_diff_1 lessI take_Suc_conv_app_nth take_all order_refl)
  have l: "length (take (n - 1) xs) = n - 1" using assms by simp
  have v: "val xs = val (take (n - 1) xs) + 65536 ^ (n - 1) * unat (xs ! (n - 1))"
    by (subst xs) (simp only: val_append l val.simps, simp)
  show "unat (xs ! (n - 1)) * 65536 ^ (n - 1) \<le> val xs"
    by (simp add: v)
  have "val (take (n - 1) xs) < 65536 ^ (n - 1)"
    using val_bound [of "take (n - 1) xs"] by (simp only: l)
  then show "val xs < Suc (unat (xs ! (n - 1))) * 65536 ^ (n - 1)"
    by (simp add: v)
qed

lemma top_two_bounds:
  assumes "0 < n" "length xs = Suc n"
  defines "T \<equiv> unat (xs ! n) * 65536 + unat (xs ! (n - 1))"
  shows "T * 65536 ^ (n - 1) \<le> val xs" and "val xs < Suc T * 65536 ^ (n - 1)"
proof -
  have n1: "Suc (n - 1) = n" using assms by simp
  have "take n xs = take (n - 1) xs @ [xs ! (n - 1)]"
    using assms by (metis n1 lessI less_Suc_eq take_Suc_conv_app_nth)
  moreover have "xs = take n xs @ [xs ! n]"
    using assms by (metis lessI take_Suc_conv_app_nth take_all order_refl)
  ultimately have xs: "xs = take (n - 1) xs @ [xs ! (n - 1), xs ! n]" by simp
  have l: "length (take (n - 1) xs) = n - 1" using assms by simp
  have v: "val xs = val (take (n - 1) xs) + 65536 ^ (n - 1) * T"
    by (subst xs) (simp only: val_append l val.simps T_def, simp)
  show "T * 65536 ^ (n - 1) \<le> val xs"
    by (simp add: v)
  have "val (take (n - 1) xs) < 65536 ^ (n - 1)"
    using val_bound [of "take (n - 1) xs"] by (simp only: l)
  then show "val xs < Suc T * 65536 ^ (n - 1)"
    by (simp add: v)
qed

lemma drop_window_split:
  assumes "p + n \<le> length a"
  shows "drop p a = window a p n @ drop (p + n) a"
  by (simp add: window_def drop_drop [symmetric] add.commute del: drop_drop)

lemma window_nth: "i < n \<Longrightarrow> p + n \<le> length m \<Longrightarrow> window m p n ! i = m ! (p + i)"
  by (simp add: window_def)

lemma unat_div_16_32:
  fixes pq0 :: "32 word" and d :: "16 word"
  shows "unat (pq0 div ucast d) = unat pq0 div unat d"
  by (simp add: unat_div unat_ucast_16_32)

lemma moduu_step_flag1:
  assumes N: "0 < N" "N \<le> 255" and len: "length a = 2 * N" "length b = N" and p: "p < N"
    and norm: "32768 \<le> unat (b ! (N - 1))"
    and U: "val (drop p a) < 65536 * val b" and flag: "flag \<noteq> 0"
  shows "\<exists>a' flag'. moduu_step N a (int p) b 0 flag = Some (a', flag')
           \<and> length a' = 2 * N \<and> take p a' = take p a
           \<and> val (drop p a') = val (drop p a) mod val b
           \<and> flag' = (if a' ! (p + N - 1) \<noteq> 0 then 1 else 0)"
proof -
  define V where "V = val b"
  define v where "v = unat (b ! (N - 1))"
  define P :: nat where "P = 65536 ^ (N - 1)"
  define M :: nat where "M = 65536 ^ (N + 1)"
  define Uv where "Uv = val (drop p a)"
  define win where "win = window a p (N + 1)"
  define T where "T = unat (a ! (p + N)) * 65536 + unat (a ! (p + N - 1))"
  define q where "q = Uv div V"
  define rm where "rm = Uv mod V"
  have lw: "length win = Suc N" using len p by (simp add: win_def length_window)
  have vb: "v * P \<le> V" "V < Suc v * P"
    using top_word_bounds [OF N(1) len(2)] by (simp_all add: v_def P_def V_def)
  have VN: "V < 65536 ^ N" using val_bound [of b] len by (simp add: V_def)
  have Vpos: "0 < V" using vb(1) norm by (cases V) (auto simp: v_def P_def)
  have UM: "Uv < M"
  proof -
    have "Uv < 65536 * V" using U by (simp add: Uv_def V_def)
    also have "\<dots> < 65536 * 65536 ^ N" using VN by simp
    finally show ?thesis by (simp add: M_def)
  qed
  have sp: "drop p a = win @ drop (p + N + 1) a"
    unfolding win_def using drop_window_split [of p "N + 1" a] len p by (simp add: add.assoc)
  have sv: "val (win @ drop (p + N + 1) a) = Uv"
    by (subst sp [symmetric]) (simp only: Uv_def)
  have "val (win @ drop (p + N + 1) a) < 65536 ^ length win"
    using UM by (simp only: sv lw M_def Suc_eq_plus1)
  note hz0 = val_high_zero [OF this]
  have hz: "val (drop (p + N + 1) a) = 0" by (rule hz0(1))
  have Uw: "Uv = val win" using hz0(2) by (simp only: sv)
  have wn: "win ! N = a ! (p + N)" "win ! (N - 1) = a ! (p + N - 1)"
    using len p N by (simp_all add: win_def window_nth)
  have Tb: "T * P \<le> Uv" "Uv < Suc T * P"
    using top_two_bounds [OF N(1) lw, unfolded wn] by (simp_all add: Uw T_def P_def)
  define pq1 :: "32 word" where
    "pq1 = (push_bit 16 (ucast (a ! (p + N)) :: 32 word) OR ucast (a ! (p + N - 1)))
             div ucast (b ! (N - 1))"
  define qw :: "16 word" where "qw = ucast (if 0xFFFF < pq1 then 0xFFFF else pq1)"
  define qh where "qh = unat qw"
  have qh: "qh = min (T div v) 65535"
  proof -
    have "qh = min (unat pq1) 65535" unfolding qh_def qw_def by (rule unat_clamp)
    moreover have "unat pq1 = T div v"
      unfolding pq1_def T_def v_def by (simp only: unat_div_16_32 unat_top2)
    ultimately show ?thesis by simp
  qed
  have vpos: "0 < v" "65536 \<le> 2 * v" using norm by (simp_all add: v_def)
  have ql: "q \<le> qh"
    unfolding q_def qh using vb(1) Tb(2) _ vpos(1)
    by (rule qhat_lower) (use U in \<open>simp add: Uv_def V_def\<close>)
  have qu: "qh \<le> q + 2"
    unfolding q_def qh using vb Tb(1) vpos(2)
    by (rule qhat_upper) (simp add: P_def)
  have Ueq: "Uv = q * V + rm" by (simp add: q_def rm_def)
  have rmV: "rm < V" using Vpos by (simp add: rm_def)
  have bnz: "b ! (N - 1) \<noteq> 0" using norm by (auto simp: unat_eq_zero)
  have idx: "nat (int p + int N) = p + N" "nat (int p + (int N - 1)) = p + N - 1"
    "nat (0 + (int N - 1)) = N - 1" "nat (int N - 1) = N - 1"
    using N by simp_all
  have st: "moduu_step N a (int p) b 0 flag =
      (case mpi_mulsubuuk N a (int p) b 0 qw of
         None \<Rightarrow> None
       | Some (a1, nborrow) \<Rightarrow>
           if nborrow = 0 then
             (case moduu_addback N a1 (int p) b 0 of
                None \<Rightarrow> None
              | Some (a2, carry) \<Rightarrow>
                  if carry AND 0x10000 = 0 then
                    (case moduu_addback N a2 (int p) b 0 of
                       None \<Rightarrow> None
                     | Some (a3, carry2) \<Rightarrow> moduu_flag N a3 (int p))
                  else moduu_flag N a2 (int p))
           else moduu_flag N a1 (int p))"
    using flag bnz len p N
    by (simp add: moduu_step_def inb_def Let_def idx qw_def pq1_def)
  from mpi_mulsubuuk_correct [of N p a 0 b qw] N len p
  obtain a1 r where ms: "mpi_mulsubuuk N a (int p) b 0 qw = Some (a1, r)"
    and l1: "length a1 = length a" and t1: "take p a1 = take p a"
    and d1: "drop (p + N + 1) a1 = drop (p + N + 1) a" and r1: "unat r \<le> 1"
    and v1: "val (window a1 p (N + 1)) + V * qh + M * unat r = Uv + M"
    by (auto simp: window_whole V_def qh_def M_def Uw win_def mult.commute)
  define W1 where "W1 = val (window a1 p (N + 1))"
  have W1M: "W1 < M"
    using val_bound [of "window a1 p (N + 1)"] l1 len p
    by (simp add: W1_def M_def length_window)
  note cc = correction_cases [OF ql qu Ueq rmV W1M v1 [folded W1_def]]
  have fin: "moduu_flag N a' (int p) = Some (a', if a' ! (p + N - 1) \<noteq> 0 then 1 else 0)
           \<and> length a' = 2 * N \<and> take p a' = take p a
           \<and> val (drop p a') = val (drop p a) mod val b"
    if "length a' = length a" "take p a' = take p a"
      "drop (p + N + 1) a' = drop (p + N + 1) a" "val (window a' p (N + 1)) = rm" for a'
  proof -
    have "drop p a' = window a' p (N + 1) @ drop (p + N + 1) a'"
      using drop_window_split [of p "N + 1" a'] that(1) len p by (simp add: add.assoc)
    then have "val (drop p a') = rm"
      using that(3,4) hz by (simp add: val_append)
    moreover have "moduu_flag N a' (int p) = Some (a', if a' ! (p + N - 1) \<noteq> 0 then 1 else 0)"
      using that(1) len p N by (intro moduu_flag_eq) simp_all
    ultimately show ?thesis using that(1,2) len by (simp add: rm_def Uv_def V_def)
  qed
  show ?thesis
  proof (cases "r = 0")
    case False
    then have "unat r = 1" using r1 by (cases "unat r") (auto simp: unat_eq_zero)
    then have "W1 = rm" by (rule cc(1))
    from fin [OF l1 t1 d1 this [unfolded W1_def]] False
    have "moduu_step N a (int p) b 0 flag = Some (a1, if a1 ! (p + N - 1) \<noteq> 0 then 1 else 0)
           \<and> length a1 = 2 * N \<and> take p a1 = take p a
           \<and> val (drop p a1) = val (drop p a) mod val b"
      by (simp add: st ms)
    then show ?thesis by blast
  next
    case True
    then have r0: "unat r = 0" by simp
    from moduu_addback_correct [of N p a1 b] N len p l1
    obtain a2 carry ov where ab: "moduu_addback N a1 (int p) b 0 = Some (a2, carry)"
      and l2: "length a2 = length a1" and t2: "take p a2 = take p a1"
      and d2: "drop (p + N + 1) a2 = drop (p + N + 1) a1" and o1: "ov \<le> 1"
      and oc: "carry AND 0x10000 = 0 \<longleftrightarrow> ov = 0"
      and v2: "val (window a2 p (N + 1)) + M * ov = W1 + V"
      by (auto simp: W1_def V_def M_def mult.commute)
    define W2 where "W2 = val (window a2 p (N + 1))"
    have W2M: "W2 < M"
      using val_bound [of "window a2 p (N + 1)"] l1 l2 len p
      by (simp add: W2_def M_def length_window)
    show ?thesis
    proof (cases "ov = 0")
      case False
      then have "ov = 1" using o1 by simp
      with cc(2) [OF r0 v2 [folded W2_def] W2M] have "W2 = rm" by simp
      moreover have "length a2 = length a" "take p a2 = take p a"
        "drop (p + N + 1) a2 = drop (p + N + 1) a"
        using l1 l2 t1 t2 d1 d2 by simp_all
      ultimately
      have "moduu_step N a (int p) b 0 flag = Some (a2, if a2 ! (p + N - 1) \<noteq> 0 then 1 else 0)
           \<and> length a2 = 2 * N \<and> take p a2 = take p a
           \<and> val (drop p a2) = val (drop p a) mod val b"
        using fin [of a2] True False oc
        by (simp add: st ms ab W2_def)
      then show ?thesis by blast
    next
      case ov0: True
      from moduu_addback_correct [of N p a2 b] N len p l1 l2
      obtain a3 carry3 ov3 where ab3: "moduu_addback N a2 (int p) b 0 = Some (a3, carry3)"
        and l3: "length a3 = length a2" and t3: "take p a3 = take p a2"
        and d3: "drop (p + N + 1) a3 = drop (p + N + 1) a2" and o3: "ov3 \<le> 1"
        and v3: "val (window a3 p (N + 1)) + M * ov3 = W2 + V"
        by (auto simp: W2_def V_def M_def mult.commute)
      define W3 where "W3 = val (window a3 p (N + 1))"
      have W3M: "W3 < M"
        using val_bound [of "window a3 p (N + 1)"] l1 l2 l3 len p
        by (simp add: W3_def M_def length_window)
      have "W3 = rm"
        using cc(3) [OF r0 v2 [folded W2_def] W2M ov0 v3 [folded W3_def] W3M o3] .
      moreover have "length a3 = length a" "take p a3 = take p a"
        "drop (p + N + 1) a3 = drop (p + N + 1) a"
        using l1 l2 l3 t1 t2 t3 d1 d2 d3 by simp_all
      ultimately
      have "moduu_step N a (int p) b 0 flag = Some (a3, if a3 ! (p + N - 1) \<noteq> 0 then 1 else 0)
           \<and> length a3 = 2 * N \<and> take p a3 = take p a
           \<and> val (drop p a3) = val (drop p a) mod val b"
        using fin [of a3] True ov0 oc
        by (simp add: st ms ab ab3 W3_def)
      then show ?thesis by blast
    qed
  qed
qed

lemma sle8_cmp_result:
  "0 \<le>s (1 :: 8 word)" "0 \<le>s (0 :: 8 word)" "\<not> 0 \<le>s (- 1 :: 8 word)"
  by (simp_all add: word_sle_eq)

lemma moduu_step_flag0:
  assumes N: "0 < N" "N \<le> 255" and len: "length a = 2 * N" "length b = N" and p: "p \<le> N"
    and norm: "32768 \<le> unat (b ! (N - 1))"
    and U: "val (drop p a) < 65536 ^ N"
  shows "\<exists>a' flag'. moduu_step N a (int p) b 0 0 = Some (a', flag')
           \<and> length a' = 2 * N \<and> take p a' = take p a
           \<and> val (drop p a') = val (drop p a) mod val b
           \<and> flag' = (if a' ! (p + N - 1) \<noteq> 0 then 1 else 0)"
proof -
  define V where "V = val b"
  define P :: nat where "P = 65536 ^ (N - 1)"
  define Uv where "Uv = val (drop p a)"
  define win where "win = window a p N"
  have lw: "length win = N" using len p by (simp add: win_def length_window)
  have vb: "32768 * P \<le> V"
  proof -
    have "32768 * P \<le> unat (b ! (N - 1)) * P" using norm by (rule mult_le_mono1)
    also have "\<dots> \<le> V"
      using top_word_bounds(1) [OF N(1) len(2)] by (simp add: P_def V_def)
    finally show ?thesis .
  qed
  have PN: "(65536 :: nat) ^ N = 65536 * P"
    using N by (cases N) (simp_all add: P_def)
  have Vpos: "0 < V" using vb by (cases V) (auto simp: P_def)
  have sp: "drop p a = win @ drop (p + N) a"
    unfolding win_def using len p by (intro drop_window_split) simp
  have sv: "val (win @ drop (p + N) a) = Uv"
    by (subst sp [symmetric]) (simp only: Uv_def)
  have "val (win @ drop (p + N) a) < 65536 ^ length win"
    using U by (simp only: sv lw Uv_def)
  note hz0 = val_high_zero [OF this]
  have hz: "val (drop (p + N) a) = 0" by (rule hz0(1))
  have Uw: "Uv = val win" using hz0(2) by (simp only: sv)
  have wn: "win ! (N - 1) = a ! (p + N - 1)"
    using len p N by (simp add: win_def window_nth)
  have idx: "nat (int p + (int N - 1)) = p + N - 1" using N by simp
  have inb: "inb a (int p + (int N - 1))"
    unfolding inb_def using len p N by linarith
  show ?thesis
  proof (cases "a ! (p + N - 1) = 0")
    case True
    have "Uv < Suc (unat (a ! (p + N - 1))) * P"
      using top_word_bounds(2) [OF N(1) lw, unfolded wn] by (simp add: Uw P_def)
    then have "Uv < P" by (simp only: True) simp
    then have "Uv < V" using vb by simp
    then have "Uv mod V = Uv" by simp
    moreover have "moduu_step N a (int p) b 0 0 = Some (a, 0)"
      using True inb by (simp add: moduu_step_def idx)
    ultimately show ?thesis using True len by (simp add: Uv_def V_def)
  next
    case False
    have cmp: "mpi_cmp N a (int p) b 0
        = Some (if V < Uv then 1 else if Uv < V then - 1 else 0)"
      using mpi_cmp_correct [of N p a 0 b] N len p
      by (simp add: window_whole V_def Uw win_def)
    show ?thesis
    proof (cases "Uv < V")
      case True
      then have "Uv mod V = Uv" by simp
      moreover have "moduu_step N a (int p) b 0 0 = Some (a, 1)"
        using False True inb by (simp add: moduu_step_def idx cmp sle8_cmp_result)
      ultimately show ?thesis using False len by (simp add: Uv_def V_def)
    next
      case ge: False
      from mpi_sub_correct [of N p a 0 b] N len p
      obtain a1 where sb: "mpi_sub N a (int p) b 0 = Some a1"
        and l1: "length a1 = length a" and t1: "take p a1 = take p a"
        and d1: "drop (p + N) a1 = drop (p + N) a"
        and v1: "int (val (window a1 p N)) = (int Uv - int V) mod 65536 ^ N"
        by (auto simp: window_whole V_def Uw win_def)
      have UN: "Uv < 65536 ^ N" using U by (simp add: Uv_def)
      have iu: "int Uv < 65536 ^ N"
        using UN by (metis of_nat_less_iff of_nat_numeral of_nat_power)
      have "(int Uv - int V) mod 65536 ^ N = int Uv - int V"
      proof (rule mod_pos_pos_trivial)
        show "0 \<le> int Uv - int V" using ge by simp
        show "int Uv - int V < 65536 ^ N" using iu by linarith
      qed
      then have "int (val (window a1 p N)) = int Uv - int V"
        using v1 by (simp only:)
      then have w1: "val (window a1 p N) = Uv - V" using ge by linarith
      have "Uv - V < V" using UN vb by (simp add: PN)
      then have md: "Uv mod V = Uv - V"
        using ge by (simp add: le_mod_geq)
      have "drop p a1 = window a1 p N @ drop (p + N) a1"
        using l1 len p by (intro drop_window_split) simp
      then have "val (drop p a1) = Uv - V"
        using w1 hz d1 by (simp add: val_append)
      moreover have "moduu_flag N a1 (int p) = Some (a1, if a1 ! (p + N - 1) \<noteq> 0 then 1 else 0)"
        using l1 len p N by (intro moduu_flag_eq) simp_all
      moreover have "moduu_step N a (int p) b 0 0 = moduu_flag N a1 (int p)"
        using False ge inb
        by (auto simp: moduu_step_def idx cmp sb sle8_cmp_result)
      ultimately show ?thesis
        using l1 t1 len md by (simp add: Uv_def V_def)
    qed
  qed
qed

declare mpi_moduu_loop.simps [simp del]

lemma val_top_zero:
  assumes "val xs < 65536 ^ n" "0 < n" "n \<le> length xs" "xs ! (n - 1) = 0"
  shows "val xs < 65536 ^ (n - 1)"
proof -
  have l: "length (take n xs) = n" using assms(3) by simp
  have "val (take n xs @ drop n xs) < 65536 ^ length (take n xs)"
    using assms(1) by (simp only: l append_take_drop_id)
  from val_high_zero(2) [OF this] have v: "val xs = val (take n xs)"
    by (simp only: append_take_drop_id)
  have "take n xs ! (n - 1) = 0" using assms(2,4) by simp
  with top_word_bounds(2) [OF assms(2) l] show ?thesis
    by (simp add: v)
qed

lemma val_take_drop: "val xs = val (take k xs) + 65536 ^ min (length xs) k * val (drop k xs)"
  using val_append [of "take k xs" "drop k xs"] by simp

lemma mod_suffix:
  fixes L P D V :: nat
  shows "(L + P * (D mod V)) mod V = (L + P * D) mod V"
  by (metis mod_add_right_eq mod_mult_right_eq)

lemma mpi_moduu_loop_correct:
  assumes N: "0 < N" "N \<le> 254" and len: "length a = 2 * N" "length b = N" and p: "p \<le> N"
    and norm: "32768 \<le> unat (b ! (N - 1))"
    and inv: "(flag = 0 \<and> val (drop p a) < 65536 ^ N)
              \<or> (flag \<noteq> 0 \<and> p < N \<and> val (drop p a) < 65536 * val b)"
  shows "\<exists>a'. mpi_moduu_loop N a (int p) b 0 (of_nat (Suc p)) flag = Some a'
           \<and> length a' = 2 * N \<and> val a' = val a mod val b"
  using len(1) p inv
proof (induction p arbitrary: a flag)
  case 0
  have N': "N \<le> 255" using N by simp
  from 0 moduu_step_flag0 [OF N(1) N' 0(1) len(2) _ norm, of 0]
    moduu_step_flag1 [OF N(1) N' 0(1) len(2) _ norm, of 0 flag]
  obtain a1 flag1 where st: "moduu_step N a (int 0) b 0 flag = Some (a1, flag1)"
    and l1: "length a1 = 2 * N" and v1: "val (drop 0 a1) = val (drop 0 a) mod val b"
    by (cases "flag = 0") auto
  have "mpi_moduu_loop N a (int 0) b 0 (of_nat (Suc 0)) flag = Some a1"
    using st by (subst mpi_moduu_loop.simps) simp
  then show ?case using l1 v1 by simp
next
  case (Suc p)
  have N': "N \<le> 255" using N by simp
  from Suc.prems moduu_step_flag0 [OF N(1) N' Suc.prems(1) len(2) _ norm, of "Suc p"]
    moduu_step_flag1 [OF N(1) N' Suc.prems(1) len(2) _ norm, of "Suc p" flag]
  obtain a1 flag1 where st: "moduu_step N a (int (Suc p)) b 0 flag = Some (a1, flag1)"
    and l1: "length a1 = 2 * N" and t1: "take (Suc p) a1 = take (Suc p) a"
    and v1: "val (drop (Suc p) a1) = val (drop (Suc p) a) mod val b"
    and f1: "flag1 = (if a1 ! (Suc p + N - 1) \<noteq> 0 then 1 else 0)"
    by (cases "flag = 0") auto
  define R where "R = val (drop (Suc p) a1)"
  have Vpos: "0 < val b"
    using top_word_bounds(1) [OF N(1) len(2)] norm by (cases "val b") auto
  have RV: "R < val b" unfolding R_def v1 using Vpos by simp
  have VN: "val b < 65536 ^ N" using val_bound [of b] len by simp
  have dp: "drop p a1 = a1 ! p # drop (Suc p) a1"
    using l1 Suc.prems(2) by (simp add: Cons_nth_drop_Suc)
  have vd: "val (drop p a1) = unat (a1 ! p) + 65536 * R"
    by (simp add: dp R_def)
  have inv1: "(flag1 = 0 \<and> val (drop p a1) < 65536 ^ N)
              \<or> (flag1 \<noteq> 0 \<and> p < N \<and> val (drop p a1) < 65536 * val b)"
  proof (cases "a1 ! (Suc p + N - 1) = 0")
    case True
    have "drop (Suc p) a1 ! (N - 1) = 0"
      using True l1 Suc.prems(2) N by (simp add: add.commute)
    moreover have "R < 65536 ^ N" using RV VN by simp
    ultimately have "R < 65536 ^ (N - 1)"
      unfolding R_def using N l1 Suc.prems(2) by (intro val_top_zero) simp_all
    then have "unat (a1 ! p) + 65536 * R < 65536 * 65536 ^ (N - 1)"
      using unat16_lt [of "a1 ! p"] by simp
    also have "\<dots> = 65536 ^ N" using N by (cases N) simp_all
    finally show ?thesis using True f1 by (simp add: vd)
  next
    case False
    have "unat (a1 ! p) + 65536 * R < 65536 * val b"
      using unat16_lt [of "a1 ! p"] RV by simp
    then show ?thesis using False f1 Suc.prems(2) by (simp add: vd)
  qed
  have cnt: "(of_nat (Suc (Suc p)) :: 8 word) - 1 = of_nat (Suc p)" by simp
  have nz: "(of_nat (Suc p) :: 8 word) \<noteq> 0"
    using Suc.prems(2) N word8_of_nat_eq0 [of "Suc p"] by simp
  have pr: "int (Suc p) - 1 = int p" by simp
  have unf: "mpi_moduu_loop N a (int (Suc p)) b 0 (of_nat (Suc (Suc p))) flag
      = mpi_moduu_loop N a1 (int p) b 0 (of_nat (Suc p)) flag1"
    using nz by (subst mpi_moduu_loop.simps) (simp add: st Let_def cnt pr del: of_nat_Suc)
  have "p \<le> N" using Suc.prems(2) by simp
  from Suc.IH [OF l1 this inv1]
  obtain a' where r: "mpi_moduu_loop N a1 (int p) b 0 (of_nat (Suc p)) flag1 = Some a'"
    and l': "length a' = 2 * N" and v': "val a' = val a1 mod val b"
    by blast
  have m: "min (length a1) (Suc p) = Suc p" "min (length a) (Suc p) = Suc p"
    using l1 Suc.prems(1,2) by simp_all
  have "val a1 mod val b
      = (val (take (Suc p) a) + 65536 ^ Suc p * (val (drop (Suc p) a) mod val b)) mod val b"
    by (subst val_take_drop [of a1 "Suc p"]) (simp only: m t1 v1)
  also have "\<dots> = (val (take (Suc p) a) + 65536 ^ Suc p * val (drop (Suc p) a)) mod val b"
    by (rule mod_suffix)
  also have "\<dots> = val a mod val b"
  proof -
    have "val a = val (take (Suc p) a) + 65536 ^ Suc p * val (drop (Suc p) a)"
      using val_take_drop [of a "Suc p"] by (simp only: m)
    then show ?thesis by (simp only:)
  qed
  finally show ?case using unf r l' v' by simp
qed

lemma mpi_moduu_correct:
  assumes "0 < N" "N \<le> 254" "length a = 2 * N" "length b = N" "0x8000 \<le> b ! (N - 1)"
  shows "\<exists>a'. mpi_moduu N a 0 b 0 = Some a' \<and> length a' = 2 * N
           \<and> val a' = val a mod val b \<and> val (take N a') = val a' \<and> val (drop N a') = 0
           \<and> val a' < val b"
proof -
  have norm: "32768 \<le> unat (b ! (N - 1))"
    using assms(5) by (simp add: word_le_nat_alt)
  have "val (drop N a) < 65536 ^ N"
    using val_bound [of "drop N a"] assms(3) by simp
  then have inv: "((0 :: 8 word) = 0 \<and> val (drop N a) < 65536 ^ N)
      \<or> ((0 :: 8 word) \<noteq> 0 \<and> N < N \<and> val (drop N a) < 65536 * val b)"
    by simp
  from mpi_moduu_loop_correct [OF assms(1-4) order_refl norm inv]
  obtain a' where r: "mpi_moduu_loop N a (int N) b 0 (of_nat (Suc N)) 0 = Some a'"
    and l: "length a' = 2 * N" and v: "val a' = val a mod val b"
    by blast
  have Vpos: "0 < val b"
    using top_word_bounds(1) [OF assms(1,4)] norm by (cases "val b") auto
  have lt: "val a' < val b" unfolding v using Vpos by simp
  have "val a' < 65536 ^ N"
    using lt val_bound [of b] assms(4) by simp
  then have "val (take N a' @ drop N a') < 65536 ^ length (take N a')"
    using l by simp
  note hz = val_high_zero [OF this]
  have "mpi_moduu N a 0 b 0 = Some a'"
    using r by (simp add: mpi_moduu_def)
  then show ?thesis using l v lt hz by simp
qed

text \<open>
  C2.  For a \<open>2N\<close>-word dividend \<open>a\<close> and a normalized single-width divisor \<open>b\<close>
  (most-significant word at least \<open>0x8000\<close>), after \<open>mpi_moduu\<close> the low \<open>N\<close> words
  of \<open>a\<close> hold the original value of \<open>a\<close> modulo \<open>b\<close>, which is less than \<open>b\<close>.
\<close>

theorem mpi_moduu_remainder:
  assumes "0 < N" "N \<le> 254" "length a = 2 * N" "length b = N" "0x8000 \<le> b ! (N - 1)"
  shows "\<exists>a'. mpi_moduu N a 0 b 0 = Some a' \<and> length a' = 2 * N
           \<and> val (take N a') = val a mod val b \<and> val (take N a') < val b"
  using mpi_moduu_correct [OF assms] by auto

theorem mpi_moduu_remainder_witness:
  "0 < (2::nat) \<and> (2::nat) \<le> 254 \<and> length [1, 2, 3, 4 :: 16 word] = 2 * 2
   \<and> length [5, 0x8000 :: 16 word] = 2 \<and> (0x8000 :: 16 word) \<le> [5, 0x8000] ! (2 - 1)
   \<and> mpi_moduu 2 [1, 2, 3, 4] 0 [5, 0x8000] 0 = Some [65512, 32729, 0, 0]
   \<and> val (take 2 [65512, 32729, 0, 0]) = val [1, 2, 3, 4] mod val [5, 0x8000]
   \<and> val (take 2 [65512, 32729, 0, 0]) < val [5, 0x8000]"
proof -
  have "mpi_moduu 2 [1, 2, 3, 4] 0 [5, 0x8000] 0 = Some [65512, 32729, 0, 0]"
    by code_simp
  then show ?thesis
    using mpi_moduu_remainder [of 2 "[1, 2, 3, 4]" "[5, 0x8000]"] by simp
qed

text \<open>
  C9.  After \<open>mpi_moduu\<close> on a normalized divisor the upper \<open>N\<close> words of the
  dividend buffer (indices \<open>N\<close> to \<open>2N - 1\<close>) are all zero.
\<close>

theorem mpi_moduu_upper_zero:
  assumes "0 < N" "N \<le> 254" "length a = 2 * N" "length b = N" "0x8000 \<le> b ! (N - 1)"
  shows "\<exists>a'. mpi_moduu N a 0 b 0 = Some a' \<and> length a' = 2 * N
           \<and> drop N a' = replicate N 0 \<and> (\<forall>i. N \<le> i \<and> i < 2 * N \<longrightarrow> a' ! i = 0)"
proof -
  from mpi_moduu_correct [OF assms]
  obtain a' where r: "mpi_moduu N a 0 b 0 = Some a'" and l: "length a' = 2 * N"
    and z: "val (drop N a') = 0"
    by blast
  have "val (drop N a') = val (replicate N 0)" by (simp add: z val_replicate_zero)
  then have d: "drop N a' = replicate N 0"
    using l by (intro val_inj) simp_all
  have "a' ! i = 0" if "N \<le> i" "i < 2 * N" for i
  proof -
    have "a' ! i = drop N a' ! (i - N)" using that l by simp
    also have "\<dots> = 0" unfolding d using that by simp
    finally show ?thesis .
  qed
  then show ?thesis using r l d by blast
qed

theorem mpi_moduu_upper_zero_witness:
  "0 < (2::nat) \<and> (2::nat) \<le> 254 \<and> length [0xFFFF, 0xFFFF, 0xFFFF, 0xFFFF :: 16 word] = 2 * 2
   \<and> length [1, 0x8000 :: 16 word] = 2 \<and> (0x8000 :: 16 word) \<le> [1, 0x8000] ! (2 - 1)
   \<and> mpi_moduu 2 [0xFFFF, 0xFFFF, 0xFFFF, 0xFFFF] 0 [1, 0x8000] 0 = Some [3, 0, 0, 0]
   \<and> drop 2 [3, 0, 0, 0 :: 16 word] = replicate 2 0"
proof -
  have "mpi_moduu 2 [0xFFFF, 0xFFFF, 0xFFFF, 0xFFFF] 0 [1, 0x8000] 0 = Some [3, 0, 0, 0]"
    by code_simp
  then show ?thesis
    using mpi_moduu_upper_zero [of 2 "[0xFFFF, 0xFFFF, 0xFFFF, 0xFFFF]" "[1, 0x8000]"]
    by simp
qed

text \<open>
  C8.  If a single-width value \<open>v\<close> is less than the normalized modulus \<open>n\<close>, then
  \<open>mpi_moduu\<close> on \<open>v\<close> zero-extended to double width leaves the buffer unchanged:
  the low \<open>N\<close> words still hold \<open>v\<close>.
\<close>

theorem mpi_moduu_reduced_unchanged:
  assumes "0 < N" "N \<le> 254" "length v = N" "length n = N" "0x8000 \<le> n ! (N - 1)"
    and "val v < val n"
  shows "\<exists>a'. mpi_moduu N (v @ replicate N 0) 0 n 0 = Some a'
           \<and> a' = v @ replicate N 0 \<and> take N a' = v"
proof -
  have la: "length (v @ replicate N 0) = 2 * N" using assms(3) by simp
  from mpi_moduu_correct [OF assms(1,2) la assms(4,5)]
  obtain a' where r: "mpi_moduu N (v @ replicate N 0) 0 n 0 = Some a'"
    and l: "length a' = 2 * N" and m: "val a' = val (v @ replicate N 0) mod val n"
    by blast
  have "val (v @ replicate N 0) = val v"
    by (simp add: val_append val_replicate_zero)
  then have "val a' = val (v @ replicate N 0)"
    using m assms(6) by simp
  then have "a' = v @ replicate N 0"
    using l la by (intro val_inj) simp_all
  then show ?thesis using r assms(3) by simp
qed

theorem mpi_moduu_reduced_unchanged_witness:
  "0 < (2::nat) \<and> (2::nat) \<le> 254 \<and> length [7, 0x7FFF :: 16 word] = 2
   \<and> length [5, 0x8000 :: 16 word] = 2 \<and> (0x8000 :: 16 word) \<le> [5, 0x8000] ! (2 - 1)
   \<and> val [7, 0x7FFF] < val [5, 0x8000]
   \<and> mpi_moduu 2 ([7, 0x7FFF] @ replicate 2 0) 0 [5, 0x8000] 0 = Some ([7, 0x7FFF] @ replicate 2 0)"
  using mpi_moduu_reduced_unchanged [of 2 "[7, 0x7FFF]" "[5, 0x8000]"] by simp

section \<open>Correctness of exponentiation\<close>

declare powm_loop.simps [simp del]

lemma memcpy16_whole:
  assumes "length dst = N" "N \<le> length src"
  shows "memcpy16 dst 0 src 0 N = Some (take N src)"
  using assms by (simp add: memcpy16_def)

lemma square_reduce_round:
  assumes N: "2 \<le> N" "N \<le> 254" and len: "length bufprod = 2 * N" "length x = N" "length y = N"
    "length n = N" and norm: "0x8000 \<le> n ! (N - 1)"
  shows "\<exists>prod r. mpi_muluu N bufprod 0 x 0 y 0 = Some prod
           \<and> mpi_moduu N prod 0 n 0 = Some r \<and> length r = 2 * N
           \<and> val (take N r) = (val x * val y) mod val n"
proof -
  have N': "N \<le> 255" "0 < N" using N by simp_all
  from mpi_muluu_correct [OF N(1) N'(1) len(2,3,1)]
  obtain prod where p: "mpi_muluu N bufprod 0 x 0 y 0 = Some prod" "length prod = 2 * N"
    "val prod = val x * val y"
    by blast
  from mpi_moduu_correct [OF N'(2) N(2) p(2) len(4) norm]
  obtain r where r: "mpi_moduu N prod 0 n 0 = Some r" "length r = 2 * N"
    "val r = val prod mod val n" "val (take N r) = val r"
    by blast
  show ?thesis using p r by simp
qed

lemma powm_loop_correct:
  assumes N: "2 \<le> N" "N \<le> 254" and len: "length bufprod = 2 * N" "length bufmod = N"
    "length n = N" and norm: "0x8000 \<le> n ! (N - 1)" and k: "k \<le> 254"
  shows "\<exists>bp bm. powm_loop N bufprod bufmod n 0 (of_nat (Suc k)) = Some (bp, bm)
           \<and> length bp = 2 * N \<and> length bm = N
           \<and> val bm = val bufmod ^ (2 ^ Suc k) mod val n"
  using len(1,2) k
proof (induction k arbitrary: bufprod bufmod)
  case 0
  from square_reduce_round [OF N 0(1,2,2) len(3) norm]
  obtain prod r where s: "mpi_muluu N bufprod 0 bufmod 0 bufmod 0 = Some prod"
    "mpi_moduu N prod 0 n 0 = Some r" "length r = 2 * N"
    "val (take N r) = (val bufmod * val bufmod) mod val n"
    by blast
  have c: "memcpy16 bufmod 0 r 0 N = Some (take N r)"
    using 0 s(3) by (intro memcpy16_whole) simp_all
  have "powm_loop N bufprod bufmod n 0 (of_nat (Suc 0)) = Some (r, take N r)"
    by (subst powm_loop.simps) (simp add: s c)
  then show ?case using s(3,4) by (simp add: power2_eq_square)
next
  case (Suc k)
  from square_reduce_round [OF N Suc.prems(1,2,2) len(3) norm]
  obtain prod r where s: "mpi_muluu N bufprod 0 bufmod 0 bufmod 0 = Some prod"
    "mpi_moduu N prod 0 n 0 = Some r" "length r = 2 * N"
    "val (take N r) = (val bufmod * val bufmod) mod val n"
    by blast
  have c: "memcpy16 bufmod 0 r 0 N = Some (take N r)"
    using Suc.prems s(3) by (intro memcpy16_whole) simp_all
  have cnt: "(of_nat (Suc (Suc k)) :: 8 word) - 1 = of_nat (Suc k)" by simp
  have nz: "(of_nat (Suc k) :: 8 word) \<noteq> 0"
    using Suc.prems(3) word8_of_nat_eq0 [of "Suc k"] by simp
  have unf: "powm_loop N bufprod bufmod n 0 (of_nat (Suc (Suc k)))
      = powm_loop N r (take N r) n 0 (of_nat (Suc k))"
    using nz by (subst powm_loop.simps) (simp add: s c Let_def cnt del: of_nat_Suc)
  have "length (take N r) = N" "k \<le> 254" using s(3) Suc.prems(3) by simp_all
  from Suc.IH [OF s(3) this]
  obtain bp bm where r: "powm_loop N r (take N r) n 0 (of_nat (Suc k)) = Some (bp, bm)"
    "length bp = 2 * N" "length bm = N"
    "val bm = val (take N r) ^ (2 ^ Suc k) mod val n"
    by blast
  have "val bm = ((val bufmod)\<^sup>2 mod val n) ^ (2 ^ Suc k) mod val n"
    using r(4) s(4) by (simp only: power2_eq_square)
  also have "\<dots> = ((val bufmod)\<^sup>2) ^ (2 ^ Suc k) mod val n"
    by (rule power_mod)
  also have "\<dots> = val bufmod ^ (2 ^ Suc (Suc k)) mod val n"
    by (simp add: power_mult [symmetric])
  finally show ?case using unf r(1,2,3) by simp
qed

lemma mpi_powm65537_value:
  assumes N: "2 \<le> N" "N \<le> 254" and len: "length m = N" "length n = N"
    "length bufprod = 2 * N" "length bufmod = N" and norm: "0x8000 \<le> n ! (N - 1)"
  shows "\<exists>m'. mpi_powm65537 N bufprod bufmod m 0 n 0 = Some m' \<and> length m' = N
           \<and> val m' = val m ^ 65537 mod val n"
proof -
  have c0: "memcpy16 bufmod 0 m 0 N = Some m"
    using len by (simp add: memcpy16_def)
  have k: "(15 :: nat) \<le> 254" by simp
  from powm_loop_correct [OF N len(3) len(1) len(2) norm k]
  obtain bp bm where l: "powm_loop N bufprod m n 0 (of_nat (Suc 15)) = Some (bp, bm)"
    "length bp = 2 * N" "length bm = N" "val bm = val m ^ (2 ^ Suc 15) mod val n"
    by blast
  have l16: "powm_loop N bufprod m n 0 16 = Some (bp, bm)"
    using l(1) by simp
  from square_reduce_round [OF N l(2,3) len(1,2) norm]
  obtain prod r where s: "mpi_muluu N bp 0 bm 0 m 0 = Some prod"
    "mpi_moduu N prod 0 n 0 = Some r" "length r = 2 * N"
    "val (take N r) = (val bm * val m) mod val n"
    by blast
  have c1: "memcpy16 m 0 r 0 N = Some (take N r)"
    using len s(3) by (intro memcpy16_whole) simp_all
  have res: "mpi_powm65537 N bufprod bufmod m 0 n 0 = Some (take N r)"
    by (simp add: mpi_powm65537_def c0 l16 s c1)
  have e: "(65537 :: nat) = 2 ^ Suc 15 + 1" by simp
  have "val (take N r) = (val m ^ (2 ^ Suc 15) mod val n * val m) mod val n"
    using s(4) l(4) by (simp only:)
  also have "\<dots> = (val m ^ (2 ^ Suc 15) * val m) mod val n"
    by (rule mod_mult_left_eq)
  also have "\<dots> = val m ^ (2 ^ Suc 15 + 1) mod val n"
    by (simp only: power_add power_one_right)
  also have "\<dots> = val m ^ 65537 mod val n"
    by (simp only: e)
  finally show ?thesis using res s(3) by simp
qed

text \<open>
  C1.  For a single-width \<open>m\<close> and a normalized single-width modulus \<open>n\<close>,
  \<open>mpi_powm65537\<close> overwrites \<open>m\<close> with \<open>m^65537 mod n\<close>; \<open>m = 0\<close> gives 0 and
  \<open>m = 1\<close> gives 1.
\<close>

theorem mpi_powm65537_correct:
  assumes "2 \<le> N" "N \<le> 254" "length m = N" "length n = N"
    "length bufprod = 2 * N" "length bufmod = N" "0x8000 \<le> n ! (N - 1)"
  shows "\<exists>m'. mpi_powm65537 N bufprod bufmod m 0 n 0 = Some m' \<and> length m' = N
           \<and> val m' = val m ^ 65537 mod val n
           \<and> (val m = 0 \<longrightarrow> val m' = 0) \<and> (val m = 1 \<longrightarrow> val m' = 1)"
proof -
  from mpi_powm65537_value [OF assms]
  obtain m' where r: "mpi_powm65537 N bufprod bufmod m 0 n 0 = Some m'" "length m' = N"
    "val m' = val m ^ 65537 mod val n"
    by (elim exE conjE) (rule that)
  have norm: "32768 \<le> unat (n ! (N - 1))"
    using assms(7) by (simp add: word_le_nat_alt)
  have N0: "0 < N" using assms(1) by simp
  have "32768 * 65536 ^ (N - 1) \<le> unat (n ! (N - 1)) * 65536 ^ (N - 1)"
    using norm by (rule mult_le_mono1)
  also have "\<dots> \<le> val n" by (rule top_word_bounds(1) [OF N0 assms(4)])
  finally have "32768 * 65536 ^ (N - 1) \<le> val n" .
  moreover have "(1 :: nat) \<le> 65536 ^ (N - 1)" by simp
  ultimately have V1: "1 < val n" by linarith
  have z: "val m' = 0" if "val m = 0"
    unfolding r(3) that by simp
  have o: "val m' = 1" if "val m = 1"
    unfolding r(3) that using V1 by simp
  show ?thesis
  proof (intro exI conjI impI)
    show "mpi_powm65537 N bufprod bufmod m 0 n 0 = Some m'" by (rule r(1))
    show "length m' = N" by (rule r(2))
    show "val m' = val m ^ 65537 mod val n" by (rule r(3))
    show "val m' = 0" if "val m = 0" using that by (rule z)
    show "val m' = 1" if "val m = 1" using that by (rule o)
  qed
qed

theorem mpi_powm65537_correct_witness:
  "2 \<le> (2::nat) \<and> (2::nat) \<le> 254 \<and> length [5, 0 :: 16 word] = 2
   \<and> length [0xD3, 0x8000 :: 16 word] = 2 \<and> length [9, 9, 9, 9 :: 16 word] = 2 * 2
   \<and> length [8, 8 :: 16 word] = 2 \<and> (0x8000 :: 16 word) \<le> [0xD3, 0x8000] ! (2 - 1)
   \<and> mpi_powm65537 2 [9, 9, 9, 9] [8, 8] [5, 0] 0 [0xD3, 0x8000] 0 = Some [52347, 13472]
   \<and> val [52347, 13472] = val [5, 0] ^ 65537 mod val [0xD3, 0x8000]"
proof -
  have h: "2 \<le> (2::nat)" "(2::nat) \<le> 254" "length [5, 0 :: 16 word] = 2"
    "length [0xD3, 0x8000 :: 16 word] = 2" "length [9, 9, 9, 9 :: 16 word] = 2 * 2"
    "length [8, 8 :: 16 word] = 2" "(0x8000 :: 16 word) \<le> [0xD3, 0x8000] ! (2 - 1)"
    by simp_all
  have e: "mpi_powm65537 2 [9, 9, 9, 9] [8, 8] [5, 0] 0 [0xD3, 0x8000] 0 = Some [52347, 13472]"
    by code_simp
  from mpi_powm65537_correct [OF h]
  obtain m' where m': "mpi_powm65537 2 [9, 9, 9, 9] [8, 8] [5, 0] 0 [0xD3, 0x8000] 0 = Some m'"
    "val m' = val [5, 0] ^ 65537 mod val [0xD3, 0x8000]"
    by (elim exE conjE) (rule that)
  have "m' = [52347, 13472]" using m'(1) e by (simp only: option.inject)
  then have "val [52347, 13472] = val [5, 0] ^ 65537 mod val [0xD3, 0x8000]"
    using m'(2) by (simp only:)
  then show ?thesis using h e by (intro conjI)
qed

end
